theory Spec2Isabelle
  imports Main "HOL-Library.Word" "HOL-Library.Multiset"
begin

unbundle bit_operations_syntax

section \<open>Faults and results\<close>

text \<open>
  The program is C: a read or write outside an array, or through a null pointer, is a
  fault.  The model makes each fault a value.  \<open>OutOfMemory\<close> is the \<^verbatim>\<open>exit(1)\<close> after
  a failed \<^verbatim>\<open>malloc\<close>, \<open>WallCountMismatch\<close> the \<^verbatim>\<open>exit(1)\<close> of the sanity check at the
  end of \<^verbatim>\<open>init_walls\<close>, and \<open>StackExhausted\<close> a recursion deeper than the call stack
  allows.  A loop that follows pointers may run forever; such a loop is a partial function
  in the option monad, where \<open>None\<close> is "does not return".
\<close>

datatype error = OutOfBounds | NullPointer | OutOfMemory | WallCountMismatch | StackExhausted

type_synonym 'a result = "(error + 'a) option"

text \<open>Sequencing of two steps that may fault or diverge.\<close>

definition rbind :: "'a result \<Rightarrow> ('a \<Rightarrow> 'b result) \<Rightarrow> 'b result" where
  "rbind m f = Option.bind m (\<lambda>r. case r of Inl e \<Rightarrow> Some (Inl e) | Inr v \<Rightarrow> f v)"

lemma rbind_mono [partial_function_mono]:
  assumes "mono_option B" and "\<And>y. mono_option (\<lambda>f. C y f)"
  shows "mono_option (\<lambda>f. rbind (B f) (\<lambda>y. C y f))"
  unfolding rbind_def
proof (intro bind_mono assms)
  fix y :: "error + 'c"
  show "mono_option (\<lambda>f. case y of Inl e \<Rightarrow> Some (Inl e) | Inr v \<Rightarrow> C v f)"
    by (cases y) (simp_all add: assms option.const_mono)
qed

section \<open>The disjoint-set forest: \<^verbatim>\<open>cells\<close>, \<^verbatim>\<open>base\<close>, \<^verbatim>\<open>unify\<close>\<close>

text \<open>
  \<^verbatim>\<open>static int *cells\<close> is an array of C \<^verbatim>\<open>int\<close>: a negative entry \<open>-N\<close> marks the root of a
  component of \<open>N\<close> cells, a non-negative entry is a link to another cell of the same
  component.  The array is a list of integers; an index is an \<^verbatim>\<open>int\<close> as in the source, and
  \<open>in_range\<close> says that it lies inside the array.  No entry ever exceeds the number of
  cells (at most \<open>10\<^sup>6\<close>) in absolute value, so the integers are unbounded here.
\<close>

definition in_range :: "'a list \<Rightarrow> int \<Rightarrow> bool" where
  "in_range xs i \<longleftrightarrow> 0 \<le> i \<and> i < int (length xs)"

text \<open>
  \<^verbatim>\<open>base\<close>, first loop: \<^verbatim>\<open>while (y>=0) { z=y; y=cells[y]; }\<close>, entered with
  \<^verbatim>\<open>y=cells[x], z=x\<close>.
\<close>

partial_function (option) base_find :: "int list \<Rightarrow> int \<Rightarrow> int \<Rightarrow> int result" where
  "base_find cells y z =
     (if y \<ge> 0
      then (if in_range cells y then base_find cells (cells ! nat y) y
            else Some (Inl OutOfBounds))
      else Some (Inr z))"

declare base_find.simps [code]

text \<open>
  \<^verbatim>\<open>base\<close>, second loop: \<^verbatim>\<open>y=x; while (cells[y]>=0) { x=cells[y]; cells[y]=z; y=x; }\<close>.
\<close>

partial_function (option) base_snap :: "int list \<Rightarrow> int \<Rightarrow> int \<Rightarrow> (int list) result" where
  "base_snap cells z y =
     (if in_range cells y
      then (if cells ! nat y \<ge> 0
            then base_snap (cells[nat y := z]) z (cells ! nat y)
            else Some (Inr cells))
      else Some (Inl OutOfBounds))"

declare base_snap.simps [code]

text \<open>\<^verbatim>\<open>base\<close> returns \<^verbatim>\<open>z\<close>; the model returns the updated array with it.\<close>

definition base :: "int list \<Rightarrow> int \<Rightarrow> (int \<times> int list) result" where
  "base cells x =
     (if in_range cells x
      then rbind (base_find cells (cells ! nat x) x) (\<lambda>z.
           rbind (base_snap cells z x) (\<lambda>cells'. Some (Inr (z, cells'))))
      else Some (Inl OutOfBounds))"

text \<open>
  \<^verbatim>\<open>unify\<close>: \<^verbatim>\<open>sx=cells[x], sy=cells[y]; if (sx<sy) { cells[y]=x; cells[x]=sx+sy; }
  else { cells[x]=y; cells[y]=sx+sy; }\<close>.
\<close>

definition unify :: "int list \<Rightarrow> int \<Rightarrow> int \<Rightarrow> error + int list" where
  "unify cells x y =
     (if in_range cells x \<and> in_range cells y
      then (let sx = cells ! nat x; sy = cells ! nat y
            in if sx < sy
               then Inr (cells[nat y := x, nat x := sx + sy])
               else Inr (cells[nat x := y, nat y := sx + sy]))
      else Inl OutOfBounds)"

text \<open>
  \<open>chain cells x ps r\<close>: following the links from cell \<open>x\<close> visits the non-root cells
  \<open>ps\<close>, in this order, and ends at the root \<open>r\<close>.  Being inductive, a chain is finite:
  "link-following from \<open>x\<close> terminates at a root".
\<close>

inductive chain :: "int list \<Rightarrow> int \<Rightarrow> int list \<Rightarrow> int \<Rightarrow> bool" where
  chain_root: "in_range cells x \<Longrightarrow> cells ! nat x < 0 \<Longrightarrow> chain cells x [] x"
| chain_link: "in_range cells x \<Longrightarrow> cells ! nat x \<ge> 0 \<Longrightarrow> chain cells (cells ! nat x) ps r
               \<Longrightarrow> chain cells x (x # ps) r"

code_pred chain .



lemma chain_in_range: "chain cells x ps r \<Longrightarrow> in_range cells x"
  by (induction rule: chain.induct) auto

lemma chain_root_neg: "chain cells x ps r \<Longrightarrow> in_range cells r \<and> cells ! nat r < 0"
  by (induction rule: chain.induct) auto

lemma chain_unique: "chain cells x ps r \<Longrightarrow> chain cells x ps' r' \<Longrightarrow> ps' = ps \<and> r' = r"
proof (induction arbitrary: ps' r' rule: chain.induct)
  case (chain_root cells x)
  from chain_root.prems chain_root.hyps show ?case
    by (cases rule: chain.cases) auto
next
  case (chain_link cells x ps r)
  from chain_link.prems chain_link.hyps(1,2) obtain qs
    where "ps' = x # qs" "chain cells (cells ! nat x) qs r'"
    by (cases rule: chain.cases) auto
  with chain_link.IH show ?case by auto
qed

lemma chain_path_nonneg:
  "chain cells x ps r \<Longrightarrow> c \<in> set ps \<Longrightarrow> in_range cells c \<and> cells ! nat c \<ge> 0"
  by (induction rule: chain.induct) auto

lemma chain_suffix:
  "chain cells x ps r \<Longrightarrow> c \<in> set ps \<Longrightarrow>
     \<exists>qs. chain cells c qs r \<and> length qs \<le> length ps \<and> set qs \<subseteq> set ps"
proof (induction rule: chain.induct)
  case (chain_root cells x)
  then show ?case by simp
next
  case (chain_link cells x ps r)
  show ?case
  proof (cases "c = x")
    case True
    have "chain cells x (x # ps) r"
      using chain_link.hyps by (intro chain.chain_link)
    with True show ?thesis by auto
  next
    case False
    with chain_link.prems have "c \<in> set ps" by simp
    from chain_link.IH [OF this] obtain qs
      where "chain cells c qs r" "length qs \<le> length ps" "set qs \<subseteq> set ps" by blast
    then show ?thesis by (intro exI [of _ qs]) auto
  qed
qed

lemma chain_head_fresh:
  assumes "chain cells x (x # ps) r"
  shows "x \<notin> set ps \<and> x \<noteq> r"
proof
  show "x \<notin> set ps"
  proof
    assume "x \<in> set ps"
    from assms have tl: "chain cells (cells ! nat x) ps r"
      by (cases rule: chain.cases) auto
    from chain_suffix [OF tl \<open>x \<in> set ps\<close>] obtain qs
      where "chain cells x qs r" "length qs \<le> length ps" by blast
    with chain_unique [OF assms, of qs r] show False by auto
  qed
  from assms have "cells ! nat x \<ge> 0" by (cases rule: chain.cases) auto
  with chain_root_neg [OF assms] show "x \<noteq> r" by auto
qed

lemma chain_distinct: "chain cells x ps r \<Longrightarrow> distinct ps"
proof (induction rule: chain.induct)
  case (chain_root cells x)
  show ?case by simp
next
  case (chain_link cells x ps r)
  have "chain cells x (x # ps) r"
    using chain_link.hyps by (intro chain.chain_link)
  from chain_head_fresh [OF this] chain_link.IH show ?case by simp
qed

lemma chain_root_notin: "chain cells x ps r \<Longrightarrow> r \<notin> set ps"
  using chain_path_nonneg chain_root_neg by fastforce

lemma nth_upd_other:
  "0 \<le> y \<Longrightarrow> 0 \<le> c \<Longrightarrow> c \<noteq> y \<Longrightarrow> (cells[nat y := v]) ! nat c = cells ! nat c"
  by simp

lemma in_range_upd [simp]: "in_range (cells[i := v]) c = in_range cells c"
  by (simp add: in_range_def)

lemma chain_upd_frame:
  "chain cells x ps r \<Longrightarrow> 0 \<le> y \<Longrightarrow> y \<notin> set ps \<Longrightarrow> y \<noteq> r \<Longrightarrow>
     chain (cells[nat y := v]) x ps r"
proof (induction rule: chain.induct)
  case (chain_root cells x)
  then show ?case
    by (intro chain.chain_root) (auto simp: in_range_def)
next
  case (chain_link cells x ps r)
  then have ne: "x \<noteq> y" and x0: "0 \<le> x" by (auto simp: in_range_def)
  have eq: "(cells[nat y := v]) ! nat x = cells ! nat x"
    using ne x0 chain_link.prems(1) by simp
  show ?case
    using chain_link eq by (intro chain.chain_link) auto
qed

lemma base_find_chain:
  "chain cells x ps r \<Longrightarrow> base_find cells (cells ! nat x) x = Some (Inr r)"
proof (induction rule: chain.induct)
  case (chain_root cells x)
  then show ?case by (subst base_find.simps) simp
next
  case (chain_link cells x ps r)
  from chain_in_range [OF chain_link.hyps(3)] chain_link.hyps(2) chain_link.IH
  show ?case by (subst base_find.simps) simp
qed

lemma base_snap_chain:
  "chain cells y ps r \<Longrightarrow>
     \<exists>cells'. base_snap cells z y = Some (Inr cells') \<and> length cells' = length cells \<and>
        (\<forall>c \<in> set ps. cells' ! nat c = z) \<and>
        (\<forall>i. 0 \<le> i \<and> i \<notin> set ps \<longrightarrow> cells' ! nat i = cells ! nat i)"
proof (induction ps arbitrary: cells y)
  case Nil
  from Nil have "in_range cells y" "cells ! nat y < 0"
    by (cases rule: chain.cases, auto)+
  then show ?case by (subst base_snap.simps) simp
next
  case (Cons p ps)
  from Cons.prems have py: "p = y" and ir: "in_range cells y" and nn: "cells ! nat y \<ge> 0"
    and tl: "chain cells (cells ! nat y) ps r"
    by (cases rule: chain.cases, auto)+
  from chain_head_fresh Cons.prems py have fresh: "y \<notin> set ps" "y \<noteq> r" by auto
  from ir have y0: "0 \<le> y" by (simp add: in_range_def)
  have "chain (cells[nat y := z]) (cells ! nat y) ps r"
    by (rule chain_upd_frame [OF tl y0 fresh])
  from Cons.IH [OF this] obtain cells'
    where snap: "base_snap (cells[nat y := z]) z (cells ! nat y) = Some (Inr cells')"
      and len: "length cells' = length cells"
      and hit: "\<forall>c \<in> set ps. cells' ! nat c = z"
      and miss: "\<forall>i. 0 \<le> i \<and> i \<notin> set ps \<longrightarrow> cells' ! nat i = (cells[nat y := z]) ! nat i"
    by auto
  have "base_snap cells z y = Some (Inr cells')"
    using ir nn snap by (subst base_snap.simps) simp
  moreover have "cells' ! nat y = z"
    using miss fresh(1) y0 ir by (simp add: in_range_def)
  moreover have "\<forall>i. 0 \<le> i \<and> i \<notin> set (p # ps) \<longrightarrow> cells' ! nat i = cells ! nat i"
    using miss py y0 by auto
  ultimately show ?case using len hit py by auto
qed

text \<open>The invariant of the data model: link-following from every cell ends at a root.\<close>

definition uf_forest :: "int list \<Rightarrow> bool" where
  "uf_forest cells \<longleftrightarrow> (\<forall>c. in_range cells c \<longrightarrow> (\<exists>ps r. chain cells c ps r))"

lemma base_chain:
  assumes "chain cells x ps r"
  shows "\<exists>cells'. base cells x = Some (Inr (r, cells')) \<and> length cells' = length cells \<and>
        (\<forall>c \<in> set ps. cells' ! nat c = r) \<and>
        (\<forall>i. 0 \<le> i \<and> i \<notin> set ps \<longrightarrow> cells' ! nat i = cells ! nat i)"
proof -
  from base_snap_chain [OF assms, of r] obtain cells'
    where "base_snap cells r x = Some (Inr cells')" "length cells' = length cells"
      "\<forall>c \<in> set ps. cells' ! nat c = r"
      "\<forall>i. 0 \<le> i \<and> i \<notin> set ps \<longrightarrow> cells' ! nat i = cells ! nat i"
    by blast
  then show ?thesis
    using base_find_chain [OF assms] chain_in_range [OF assms]
    by (simp add: base_def rbind_def)
qed

text \<open>
  Claim C8.  In a \<^verbatim>\<open>cells\<close> array where link-following from every cell ends at a root,
  \<^verbatim>\<open>base(x)\<close> returns, for every cell \<open>x\<close>, and its value is the root \<open>r\<close> that the chain
  from \<open>x\<close> reaches; afterwards every cell \<open>ps\<close> visited on the chain (the root excluded)
  holds \<open>r\<close>, the array has kept its size, and every entry off the chain is unchanged.
\<close>

theorem base_path_compression:
  assumes "uf_forest cells" and "in_range cells x"
  shows "\<exists>ps r cells'. chain cells x ps r \<and> base cells x = Some (Inr (r, cells')) \<and>
        length cells' = length cells \<and>
        (\<forall>c \<in> set ps. cells' ! nat c = r) \<and>
        (\<forall>i. in_range cells i \<and> i \<notin> set ps \<longrightarrow> cells' ! nat i = cells ! nat i)"
proof -
  from assms obtain ps r where ch: "chain cells x ps r"
    by (auto simp: uf_forest_def)
  from base_chain [OF ch] obtain cells'
    where b: "base cells x = Some (Inr (r, cells'))" "length cells' = length cells"
      "\<forall>c \<in> set ps. cells' ! nat c = r"
      "\<forall>i. 0 \<le> i \<and> i \<notin> set ps \<longrightarrow> cells' ! nat i = cells ! nat i"
    by blast
  show ?thesis
    using ch b by (intro exI [of _ ps] exI [of _ r] exI [of _ cells']) (simp add: in_range_def)
qed


theorem base_path_compression_witness:
  "uf_forest [1, -2, 1, 2] \<and> in_range [1, -2, 1, 2 :: int] 3 \<and>
   (\<exists>ps r cells'. chain [1, -2, 1, 2] 3 ps r \<and>
       base [1, -2, 1, 2] 3 = Some (Inr (r, cells')) \<and> length cells' = 4)"
proof -
  let ?cs = "[1, -2, 1, 2] :: int list"
  have c1: "chain ?cs 1 [] 1"
    by (rule chain_root) (simp_all add: in_range_def)
  have c0: "chain ?cs 0 [0] 1"
    using c1 by (intro chain_link) (simp_all add: in_range_def)
  have c2: "chain ?cs 2 [2] 1"
    using c1 by (intro chain_link) (simp_all add: in_range_def)
  have c3: "chain ?cs 3 [3, 2] 1"
    using c2 by (intro chain_link) (simp_all add: in_range_def)
  have rng: "in_range ?cs c \<Longrightarrow> c = 0 \<or> c = 1 \<or> c = 2 \<or> c = 3" for c
    by (auto simp: in_range_def)
  have f: "uf_forest ?cs"
    unfolding uf_forest_def using c0 c1 c2 c3 rng by blast
  have r: "in_range ?cs 3" by (simp add: in_range_def)
  from base_path_compression [OF f r] show ?thesis
    using f r by auto
qed

text \<open>
  Claim C7.  For two distinct roots \<open>x\<close> and \<open>y\<close> (negative entries, minus the component
  sizes), \<^verbatim>\<open>unify(x,y)\<close> links the root of the strictly smaller component directly under
  the root of the larger one (on a tie \<open>x\<close> goes under \<open>y\<close>); the surviving root \<open>r\<close>
  holds minus the sum of the two sizes; link-following from \<open>x\<close> and from \<open>y\<close> now ends
  at \<open>r\<close>, so both are in one component; every other entry is unchanged.
\<close>

theorem unify_by_size:
  assumes "in_range cells x" and "in_range cells y" and "x \<noteq> y"
    and "cells ! nat x < 0" and "cells ! nat y < 0"
  shows "\<exists>cells' r. unify cells x y = Inr cells' \<and> length cells' = length cells \<and>
      (- (cells ! nat y) < - (cells ! nat x) \<longrightarrow> cells' ! nat y = x \<and> r = x) \<and>
      (- (cells ! nat x) < - (cells ! nat y) \<longrightarrow> cells' ! nat x = y \<and> r = y) \<and>
      (r = x \<or> r = y) \<and>
      cells' ! nat r = - ((- (cells ! nat x)) + (- (cells ! nat y))) \<and>
      (\<exists>ps qs. chain cells' x ps r \<and> chain cells' y qs r) \<and>
      (\<forall>i. in_range cells i \<and> i \<noteq> x \<and> i \<noteq> y \<longrightarrow> cells' ! nat i = cells ! nat i)"
proof (cases "cells ! nat x < cells ! nat y")
  case True
  let ?cs = "cells[nat y := x, nat x := cells ! nat x + cells ! nat y]"
  from assms have nxy: "nat x \<noteq> nat y" and bx: "nat x < length cells" and byl: "nat y < length cells"
    and x0: "0 \<le> x"
    by (auto simp: in_range_def)
  have u: "unify cells x y = Inr ?cs"
    using assms True by (simp add: unify_def)
  have vx: "?cs ! nat x = cells ! nat x + cells ! nat y" using bx by simp
  have vy: "?cs ! nat y = x" using nxy byl by simp
  have rx: "chain ?cs x [] x"
    using assms vx by (intro chain_root) auto
  have "chain ?cs (?cs ! nat y) [] x"
    using rx by (simp only: vy)
  then have ry: "chain ?cs y [y] x"
    using assms(2) x0 by (intro chain_link) (simp_all only: vy in_range_upd)
  have oth: "\<forall>i. in_range cells i \<and> i \<noteq> x \<and> i \<noteq> y \<longrightarrow> ?cs ! nat i = cells ! nat i"
    using assms by (auto simp: in_range_def)
  show ?thesis
    using u vx vy rx ry oth True
    by (intro exI [of _ ?cs] exI [of _ x]) auto
next
  case False
  let ?cs = "cells[nat x := y, nat y := cells ! nat x + cells ! nat y]"
  from assms have nxy: "nat x \<noteq> nat y" and bx: "nat x < length cells" and byl: "nat y < length cells"
    and y0: "0 \<le> y"
    by (auto simp: in_range_def)
  have u: "unify cells x y = Inr ?cs"
    using assms False by (simp add: unify_def)
  have vy: "?cs ! nat y = cells ! nat x + cells ! nat y" using byl by simp
  have vx: "?cs ! nat x = y" using nxy bx by simp
  have ry: "chain ?cs y [] y"
    using assms vy by (intro chain_root) auto
  have "chain ?cs (?cs ! nat x) [] y"
    using ry by (simp only: vx)
  then have rx: "chain ?cs x [x] y"
    using assms(1) y0 by (intro chain_link) (simp_all only: vx in_range_upd)
  have oth: "\<forall>i. in_range cells i \<and> i \<noteq> x \<and> i \<noteq> y \<longrightarrow> ?cs ! nat i = cells ! nat i"
    using assms by (auto simp: in_range_def)
  show ?thesis
    using u vx vy rx ry oth False
    by (intro exI [of _ ?cs] exI [of _ y]) auto
qed

theorem unify_by_size_witness:
  "in_range [-3, 0, 0, -1 :: int] 0 \<and> in_range [-3, 0, 0, -1 :: int] 3 \<and> (0 :: int) \<noteq> 3 \<and>
   [-3, 0, 0, -1 :: int] ! nat 0 < 0 \<and> [-3, 0, 0, -1 :: int] ! nat 3 < 0 \<and>
   unify [-3, 0, 0, -1] 0 3 = Inr [-4, 0, 0, 0]"
proof -
  let ?cs = "[-3, 0, 0, -1] :: int list"
  have h: "in_range ?cs 0" "in_range ?cs 3" "(0 :: int) \<noteq> 3" "?cs ! nat 0 < 0" "?cs ! nat 3 < 0"
    by (simp_all add: in_range_def)
  from unify_by_size [OF h] obtain cells' r
    where "unify ?cs 0 3 = Inr cells'" by blast
  then show ?thesis using h by (simp add: unify_def)
qed


section \<open>Seeding the generator: \<^verbatim>\<open>init_rand\<close>\<close>

text \<open>
  \<^verbatim>\<open>static int seed\<close> is a 32-bit integer.  What \<^verbatim>\<open>init_rand\<close> reads from the system is a
  parameter of the model: \<^verbatim>\<open>clock()\<close>, \<^verbatim>\<open>time(0)\<close>, and for the SunOS build the
  milliseconds of \<^verbatim>\<open>ftime\<close> and \<^verbatim>\<open>getpid()\<close>.  The value converted to \<^verbatim>\<open>int\<close> is
  the value modulo \<open>2\<^sup>3\<^sup>2\<close>.
\<close>

record sysenv =
  clock_now :: int
  time_now :: int
  millitm_now :: int
  pid_now :: int

text \<open>
  The first argument says whether the program was compiled with \<^verbatim>\<open>-DSUN\<close>.  With it:
  \<^verbatim>\<open>if (!seed) seed=(t.time<<8) + (t.millitm) + (pid<<16);\<close>  Without it, the branch
  after \<^verbatim>\<open>#else\<close>: \<^verbatim>\<open>seed=clock()+time(0);\<close>  Then, in both,
  \<^verbatim>\<open>seed=seed&0x7FFFFFFF; SRandom(seed);\<close>  The result is the value handed to
  \<^verbatim>\<open>SRandom\<close>, which is also what \<^verbatim>\<open>print_maze\<close> reports as the seed.
\<close>

definition init_rand :: "bool \<Rightarrow> sysenv \<Rightarrow> 32 word \<Rightarrow> 32 word" where
  "init_rand sun env seed =
     (let seed1 =
        (if sun
         then (if seed = 0
               then word_of_int (time_now env * 2 ^ 8 + millitm_now env + pid_now env * 2 ^ 16)
               else seed)
         else word_of_int (clock_now env + time_now env))
      in seed1 AND 0x7FFFFFFF)"

text \<open>
  \<^verbatim>\<open>main\<close>: \<^verbatim>\<open>if (argc==4) seed=atoi(argv[3]);\<close> and later \<^verbatim>\<open>init_rand();\<close>  The static
  \<^verbatim>\<open>seed\<close> starts as 0.  The argument is the number \<^verbatim>\<open>atoi\<close> read, if a third argument
  was given.
\<close>

definition main_seed :: "bool \<Rightarrow> sysenv \<Rightarrow> int option \<Rightarrow> 32 word" where
  "main_seed sun env arg =
     init_rand sun env (case arg of None \<Rightarrow> 0 | Some s \<Rightarrow> word_of_int s)"

text \<open>
  In the SunOS build a non-zero seed given by the caller is the seed of the generator, as
  the comment above \<^verbatim>\<open>init_rand\<close> says ("If \<^verbatim>\<open>seed\<close> is non-zero, we use that directly as
  our seed").
\<close>

lemma init_rand_sun_keeps_seed:
  "seed \<noteq> 0 \<Longrightarrow> init_rand True env seed = seed AND 0x7FFFFFFF"
  by (simp add: init_rand_def)

lemma init_rand_default_drops_seed:
  "init_rand False env seed = word_of_int (clock_now env + time_now env) AND 0x7FFFFFFF"
  by (simp add: init_rand_def)

text \<open>
  Claim C2 (the code departs from it).  In the default build, without \<^verbatim>\<open>-DSUN\<close>, the seed
  given on the command line is overwritten: two runs with the same seed 42, at times 1000
  and 1001, seed the generator with 1000 and with 1001, and neither with 42.
\<close>

theorem init_rand_ignores_seed:
  "main_seed False \<lparr>clock_now = 0, time_now = 1000, millitm_now = 0, pid_now = 1\<rparr> (Some 42) = 1000
   \<and> main_seed False \<lparr>clock_now = 0, time_now = 1001, millitm_now = 0, pid_now = 1\<rparr> (Some 42) = 1001
   \<and> main_seed True \<lparr>clock_now = 0, time_now = 1000, millitm_now = 0, pid_now = 1\<rparr> (Some 42) = 42"
  by (simp add: main_seed_def init_rand_def)

section \<open>The tree analyser: \<^verbatim>\<open>node\<close> and \<^verbatim>\<open>analyse_tree\<close>\<close>

text \<open>
  \<^verbatim>\<open>typedef struct node { int exits; int n_kids; struct node *kids[6];
  struct node *first,*second,*furthest; int length,distance; } node;\<close>
  The nodes live in the array \<^verbatim>\<open>nodes\<close>; a pointer to a node is the index of the node in
  that array, and \<open>None\<close> is the null pointer (the array comes from \<^verbatim>\<open>calloc\<close>, so every
  pointer field starts as null).  The field \<^verbatim>\<open>length\<close> is \<open>length_n\<close> here, since \<open>length\<close>
  is the length of a list.
\<close>

record node =
  exits :: int
  n_kids :: int
  kids :: "nat option list"
  first :: "nat option"
  second :: "nat option"
  furthest :: "nat option"
  length_n :: int
  distance :: int

text \<open>Reading and writing through a node pointer.\<close>

definition load :: "node list \<Rightarrow> nat option \<Rightarrow> error + node" where
  "load ns p =
     (case p of
        None \<Rightarrow> Inl NullPointer
      | Some a \<Rightarrow> if a < length ns then Inr (ns ! a) else Inl OutOfBounds)"

definition store :: "node list \<Rightarrow> nat option \<Rightarrow> (node \<Rightarrow> node) \<Rightarrow> error + node list" where
  "store ns p f =
     (case p of
        None \<Rightarrow> Inl NullPointer
      | Some a \<Rightarrow> if a < length ns then Inr (ns[a := f (ns ! a)]) else Inl OutOfBounds)"

definition ebind :: "error + 'a \<Rightarrow> ('a \<Rightarrow> error + 'b) \<Rightarrow> error + 'b" where
  "ebind m f = (case m of Inl e \<Rightarrow> Inl e | Inr v \<Rightarrow> f v)"

text \<open>
  The local variables of \<^verbatim>\<open>analyse_tree\<close>:
  \<^verbatim>\<open>int d1=0,d2=0; int l1=0; node *dn1=0,*dn2=0; node *ln1=0;\<close>
\<close>

record locals =
  d1 :: int
  d2 :: int
  l1 :: int
  dn1 :: "nat option"
  dn2 :: "nat option"
  ln1 :: "nat option"

definition locals0 :: locals where
  "locals0 = \<lparr>d1 = 0, d2 = 0, l1 = 0, dn1 = None, dn2 = None, ln1 = None\<rparr>"

text \<open>
  The three tests of the loop body, on child \<open>m\<close> whose node is \<open>mn\<close>:
  \<^verbatim>\<open>if (m->length>=l1) { l1=m->length; ln1=m; }
  if (m->distance>=d1) { d2=d1; dn2=dn1; d1=m->distance; dn1=m; }
  else if (m->distance>=d2) { d2=m->distance; dn2=m; }\<close>
\<close>

definition note_kid :: "locals \<Rightarrow> nat option \<Rightarrow> node \<Rightarrow> locals" where
  "note_kid loc m mn =
     (let loc1 = (if length_n mn \<ge> l1 loc then loc\<lparr>l1 := length_n mn, ln1 := m\<rparr> else loc)
      in if distance mn \<ge> d1 loc1
         then loc1\<lparr>d2 := d1 loc1, dn2 := dn1 loc1, d1 := distance mn, dn1 := m\<rparr>
         else if distance mn \<ge> d2 loc1
         then loc1\<lparr>d2 := distance mn, dn2 := m\<rparr>
         else loc1)"

text \<open>
  The end of \<^verbatim>\<open>analyse_tree\<close>, after the loop, statement by statement:
  \<^verbatim>\<open>d1+=n->n_kids; d2+=n->n_kids;
  n->distance=d1; n->furthest=dn1->furthest;
  if (d1+d2>l1) { n->length=d1+d2; n->first=dn1->furthest;
                  n->second=dn2 ? dn2->furthest : n; }
  else { n->length=l1; n->first=ln1->first; n->second=ln1->second; }\<close>
\<close>

definition combine_kids :: "node list \<Rightarrow> nat option \<Rightarrow> locals \<Rightarrow> error + node list" where
  "combine_kids ns1 n loc =
     ebind (load ns1 n) (\<lambda>nd1.
     let dd1 = d1 loc + n_kids nd1; dd2 = d2 loc + n_kids nd1 in
     ebind (store ns1 n (\<lambda>v. v\<lparr>distance := dd1\<rparr>)) (\<lambda>ns2.
     ebind (load ns2 (dn1 loc)) (\<lambda>t1.
     ebind (store ns2 n (\<lambda>v. v\<lparr>furthest := furthest t1\<rparr>)) (\<lambda>ns3.
     if dd1 + dd2 > l1 loc
     then
       ebind (store ns3 n (\<lambda>v. v\<lparr>length_n := dd1 + dd2\<rparr>)) (\<lambda>ns4.
       ebind (load ns4 (dn1 loc)) (\<lambda>t2.
       ebind (store ns4 n (\<lambda>v. v\<lparr>first := furthest t2\<rparr>)) (\<lambda>ns5.
       (case dn2 loc of
          None \<Rightarrow> store ns5 n (\<lambda>v. v\<lparr>second := n\<rparr>)
        | Some b \<Rightarrow>
            ebind (load ns5 (Some b)) (\<lambda>t3.
            store ns5 n (\<lambda>v. v\<lparr>second := furthest t3\<rparr>))))))
     else
       ebind (store ns3 n (\<lambda>v. v\<lparr>length_n := l1 loc\<rparr>)) (\<lambda>ns4.
       ebind (load ns4 (ln1 loc)) (\<lambda>t2.
       ebind (store ns4 n (\<lambda>v. v\<lparr>first := first t2\<rparr>)) (\<lambda>ns5.
       ebind (load ns5 (ln1 loc)) (\<lambda>t3.
       store ns5 n (\<lambda>v. v\<lparr>second := second t3\<rparr>)))))))))"

text \<open>
  \<^verbatim>\<open>analyse_tree\<close> calls itself inside its loop.  The first argument bounds the depth of
  the recursion (the call stack); \<open>analyse_kids depth ns n i loc\<close> is the loop
  \<^verbatim>\<open>while (--i>=0) { m=n->kids[i]; analyse_tree(m); ... }\<close> with \<open>i\<close> iterations left.
  A node without children is done at once:
  \<^verbatim>\<open>if (!i) { n->first=n->second=n->furthest=n; n->length=n->distance=0; return; }\<close>
\<close>

fun analyse_tree :: "nat \<Rightarrow> node list \<Rightarrow> nat option \<Rightarrow> error + node list"
  and analyse_kids :: "nat \<Rightarrow> node list \<Rightarrow> nat option \<Rightarrow> nat \<Rightarrow> locals
                         \<Rightarrow> error + (node list \<times> locals)" where
  "analyse_tree 0 ns n = Inl StackExhausted"
| "analyse_tree (Suc depth) ns n =
     ebind (load ns n) (\<lambda>nd.
       if n_kids nd = 0
       then store ns n (\<lambda>v. v\<lparr>first := n, second := n, furthest := n,
                                length_n := 0, distance := 0\<rparr>)
       else
         ebind (analyse_kids depth ns n (nat (n_kids nd)) locals0) (\<lambda>(ns1, loc).
         combine_kids ns1 n loc))"
| "analyse_kids depth ns n 0 loc = Inr (ns, loc)"
| "analyse_kids depth ns n (Suc i) loc =
     ebind (load ns n) (\<lambda>nd.
       if i < length (kids nd)
       then
         (let m = kids nd ! i in
          ebind (analyse_tree depth ns m) (\<lambda>ns1.
          ebind (load ns1 m) (\<lambda>mn.
          analyse_kids depth ns1 n i (note_kid loc m mn))))
       else Inl OutOfBounds)"

subsection \<open>Trees in the node array\<close>

text \<open>
  A rooted tree, as the fields \<^verbatim>\<open>n_kids\<close> and \<^verbatim>\<open>kids\<close> describe it once \<^verbatim>\<open>build_tree\<close> has
  run: a node address with the subtrees of its children, in the order of \<^verbatim>\<open>kids\<close>.
\<close>

datatype tree = Tree nat "tree list"

fun root :: "tree \<Rightarrow> nat" where
  "root (Tree a ts) = a"

fun addrs :: "tree \<Rightarrow> nat list" where
  "addrs (Tree a ts) = a # concat (map addrs ts)"

fun height :: "tree \<Rightarrow> nat" where
  "height (Tree a ts) = Suc (foldr max (map height ts) 0)"

text \<open>
  \<open>shaped ns t\<close>: the array describes the tree \<open>t\<close>: at every node of \<open>t\<close>, \<^verbatim>\<open>n_kids\<close> is
  the number of children, the array \<^verbatim>\<open>kids\<close> has its 6 entries, and the first \<^verbatim>\<open>n_kids\<close>
  of them point to the children.  \<open>is_tree\<close> adds that no node occurs twice.
\<close>

fun shaped :: "node list \<Rightarrow> tree \<Rightarrow> bool" where
  "shaped ns (Tree a ts) \<longleftrightarrow>
     a < length ns \<and> n_kids (ns ! a) = int (length ts) \<and> length (kids (ns ! a)) = 6 \<and>
     take (length ts) (kids (ns ! a)) = map (\<lambda>t. Some (root t)) ts \<and>
     (\<forall>t \<in> set ts. shaped ns t)"

definition is_tree :: "node list \<Rightarrow> tree \<Rightarrow> bool" where
  "is_tree ns t \<longleftrightarrow> shaped ns t \<and> distinct (addrs t)"

text \<open>What \<^verbatim>\<open>analyse_tree\<close> leaves in a node without children.\<close>

definition leaf_rule :: "node list \<Rightarrow> nat \<Rightarrow> bool" where
  "leaf_rule ns a \<longleftrightarrow>
     distance (ns ! a) = 0 \<and> length_n (ns ! a) = 0 \<and>
     first (ns ! a) = Some a \<and> second (ns ! a) = Some a \<and> furthest (ns ! a) = Some a"

text \<open>
  What it leaves in a node \<open>a\<close> whose children are \<open>cs\<close>.  \<open>c1\<close> is a child of largest
  \<^verbatim>\<open>distance\<close>, \<open>cl\<close> a child of largest \<^verbatim>\<open>length\<close>.  With two children or more, \<open>c2\<close> is
  another child, of largest \<^verbatim>\<open>distance\<close> among the children other than \<open>c1\<close>; \<open>e2\<close> is its
  \<^verbatim>\<open>distance\<close> and \<open>far2\<close> its \<^verbatim>\<open>furthest\<close>.  With one child there is no second child:
  \<open>e2\<close> is 0 and \<open>far2\<close> is the node \<open>a\<close> itself.
\<close>

definition inner_rule :: "node list \<Rightarrow> nat \<Rightarrow> nat list \<Rightarrow> bool" where
  "inner_rule ns a cs \<longleftrightarrow>
     (\<exists>c1 \<in> set cs. \<exists>cl \<in> set cs. \<exists>e2 far2.
        (\<forall>c \<in> set cs. distance (ns ! c) \<le> distance (ns ! c1)) \<and>
        (\<forall>c \<in> set cs. length_n (ns ! c) \<le> length_n (ns ! cl)) \<and>
        (if length cs = 1 then e2 = 0 \<and> far2 = Some a
         else (\<exists>c2 \<in> set cs. c2 \<noteq> c1 \<and>
                 (\<forall>c \<in> set cs. c \<noteq> c1 \<longrightarrow> distance (ns ! c) \<le> distance (ns ! c2)) \<and>
                 e2 = distance (ns ! c2) \<and> far2 = furthest (ns ! c2))) \<and>
        (let k = int (length cs);
             dd1 = distance (ns ! c1) + k;
             dd2 = e2 + k;
             ll = length_n (ns ! cl)
         in distance (ns ! a) = dd1 \<and> furthest (ns ! a) = furthest (ns ! c1) \<and>
            (if dd1 + dd2 > ll
             then length_n (ns ! a) = dd1 + dd2 \<and> first (ns ! a) = furthest (ns ! c1) \<and>
                  second (ns ! a) = far2
             else length_n (ns ! a) = ll \<and> first (ns ! a) = first (ns ! cl) \<and>
                  second (ns ! a) = second (ns ! cl))))"

text \<open>The rule holds at every node of the tree, and no field is negative.\<close>

fun analysed :: "node list \<Rightarrow> tree \<Rightarrow> bool" where
  "analysed ns (Tree a ts) \<longleftrightarrow>
     (if ts = [] then leaf_rule ns a else inner_rule ns a (map root ts)) \<and>
     0 \<le> distance (ns ! a) \<and> 0 \<le> length_n (ns ! a) \<and>
     (\<forall>t \<in> set ts. analysed ns t)"

text \<open>The fields \<^verbatim>\<open>analyse_tree\<close> never writes.\<close>

definition same_shape :: "node list \<Rightarrow> node list \<Rightarrow> bool" where
  "same_shape ns ns' \<longleftrightarrow>
     length ns' = length ns \<and>
     (\<forall>b < length ns. n_kids (ns' ! b) = n_kids (ns ! b) \<and> kids (ns' ! b) = kids (ns ! b) \<and>
                       exits (ns' ! b) = exits (ns ! b))"

text \<open>Nodes for hand-built trees: a leaf, and a node with the children \<open>cs\<close>.\<close>

definition leaf_node :: node where
  "leaf_node = \<lparr>exits = 0, n_kids = 0, kids = replicate 6 None, first = None, second = None,
                 furthest = None, length_n = 0, distance = 0\<rparr>"

definition inner_node :: "nat list \<Rightarrow> node" where
  "inner_node cs = leaf_node\<lparr>n_kids := int (length cs),
                               kids := map Some cs @ replicate (6 - length cs) None\<rparr>"

text \<open>The star: node 0 with the \<open>k\<close> leaves \<open>1, ..., k\<close> as children.\<close>

definition star :: "nat \<Rightarrow> node list" where
  "star k = inner_node [1 ..< Suc k] # replicate k leaf_node"

definition star_tree :: "nat \<Rightarrow> tree" where
  "star_tree k = Tree 0 (map (\<lambda>i. Tree i []) [1 ..< Suc k])"

subsection \<open>Reading and writing inside the array\<close>

lemma ebind_Inr [simp]: "ebind (Inr v) f = f v"
  by (simp add: ebind_def)

lemma ebind_Inl [simp]: "ebind (Inl e) f = Inl e"
  by (simp add: ebind_def)

lemma load_Some [simp]: "a < length ns \<Longrightarrow> load ns (Some a) = Inr (ns ! a)"
  by (simp add: load_def)

lemma store_Some [simp]: "a < length ns \<Longrightarrow> store ns (Some a) f = Inr (ns[a := f (ns ! a)])"
  by (simp add: store_def)

lemma foldr_max_ge: "x \<in> set xs \<Longrightarrow> x \<le> foldr max xs (0::nat)"
  by (induction xs) (auto simp: max_def)

lemma height_kid: "t \<in> set ts \<Longrightarrow> height t \<le> foldr max (map height ts) 0"
  by (rule foldr_max_ge) simp

lemma root_in_addrs: "root t \<in> set (addrs t)"
  by (cases t) simp

lemma shaped_bound: "shaped ns t \<Longrightarrow> b \<in> set (addrs t) \<Longrightarrow> b < length ns"
  by (induction t) auto

lemma shaped_same_shape: "shaped ns t \<Longrightarrow> same_shape ns ns' \<Longrightarrow> shaped ns' t"
  by (induction t) (auto simp: same_shape_def)

lemma same_shape_refl: "same_shape ns ns"
  by (simp add: same_shape_def)

lemma same_shape_trans: "same_shape ns ns1 \<Longrightarrow> same_shape ns1 ns2 \<Longrightarrow> same_shape ns ns2"
  by (simp add: same_shape_def)

lemma shaped_kids_le: "shaped ns (Tree a ts) \<Longrightarrow> length ts \<le> 6"
proof -
  assume "shaped ns (Tree a ts)"
  then have "length (take (length ts) (kids (ns ! a))) = length ts" and "length (kids (ns ! a)) = 6"
    by simp_all
  then show ?thesis by simp
qed

lemma shaped_kid_ptr:
  assumes "shaped ns (Tree a ts)" and "i < length ts"
  shows "kids (ns ! a) ! i = Some (root (ts ! i))"
proof -
  from assms have "take (length ts) (kids (ns ! a)) ! i = map (\<lambda>t. Some (root t)) ts ! i"
    by simp
  with assms(2) show ?thesis by simp
qed

lemma distinct_concat_part: "distinct (concat xss) \<Longrightarrow> xs \<in> set xss \<Longrightarrow> distinct xs"
  by (induction xss) auto

lemma distinct_concat_nth:
  "distinct (concat xss) \<Longrightarrow> i < length xss \<Longrightarrow> j < length xss \<Longrightarrow> i \<noteq> j \<Longrightarrow>
     set (xss ! i) \<inter> set (xss ! j) = {}"
proof (induction xss arbitrary: i j)
  case Nil
  then show ?case by simp
next
  case (Cons xs xss)
  have sub: "set (xss ! k) \<subseteq> set (concat xss)" if "k < length xss" for k
    using nth_mem [OF that] by auto
  show ?case
  proof (cases i)
    case 0
    with Cons.prems obtain j' where j: "j = Suc j'" "j' < length xss"
      by (cases j) auto
    with Cons.prems(1) sub [of j'] 0 show ?thesis by auto
  next
    case (Suc i')
    show ?thesis
    proof (cases j)
      case 0
      with Cons.prems(1,2) sub [of i'] Suc show ?thesis by auto
    next
      case (Suc j')
      with Cons.prems \<open>i = Suc i'\<close> Cons.IH [of i' j'] show ?thesis by auto
    qed
  qed
qed

lemma distinct_roots: "distinct (concat (map addrs ts)) \<Longrightarrow> distinct (map root ts)"
proof (induction ts)
  case Nil
  then show ?case by simp
next
  case (Cons t ts)
  have "root t \<notin> root ` set ts"
  proof
    assume "root t \<in> root ` set ts"
    then obtain u where "u \<in> set ts" "root u = root t" by auto
    with root_in_addrs [of u] have "root t \<in> set (concat (map addrs ts))" by auto
    with Cons.prems root_in_addrs [of t] show False by auto
  qed
  with Cons show ?case by simp
qed

subsection \<open>The rule depends on the analysed nodes only\<close>

lemma inner_rule_cong:
  assumes "ns' ! a = ns ! a" and "\<forall>c \<in> set cs. ns' ! c = ns ! c"
  shows "inner_rule ns' a cs = inner_rule ns a cs"
  using assms by (simp add: inner_rule_def cong: bex_cong ball_cong if_cong)

lemma inner_rule_rev: "inner_rule ns a (rev cs) = inner_rule ns a cs"
  by (simp add: inner_rule_def)

lemma analysed_frame:
  "analysed ns t \<Longrightarrow> \<forall>b \<in> set (addrs t). ns' ! b = ns ! b \<Longrightarrow> analysed ns' t"
proof (induction t)
  case (Tree a ts)
  have a: "ns' ! a = ns ! a" using Tree.prems(2) by simp
  have cs: "\<forall>c \<in> set (map root ts). ns' ! c = ns ! c"
    using Tree.prems(2) root_in_addrs by fastforce
  have kids: "\<forall>t \<in> set ts. analysed ns' t"
    using Tree.IH Tree.prems by auto
  show ?case
    using Tree.prems(1) kids a inner_rule_cong [OF a cs]
    by (auto simp: leaf_rule_def)
qed

lemma analysed_nonneg: "analysed ns t \<Longrightarrow> 0 \<le> distance (ns ! root t) \<and> 0 \<le> length_n (ns ! root t)"
  by (cases t) simp

subsection \<open>The loop over the children\<close>

text \<open>
  The locals after the loop has seen the children \<open>cs\<close>, in this order, when the nodes of
  these children are as in \<open>ns\<close>.
\<close>

definition scan :: "node list \<Rightarrow> nat list \<Rightarrow> locals" where
  "scan ns cs = foldl (\<lambda>loc c. note_kid loc (Some c) (ns ! c)) locals0 cs"

text \<open>What the locals hold once the loop has seen the children \<open>cs\<close> (at least one).\<close>

definition scanned :: "node list \<Rightarrow> nat list \<Rightarrow> locals \<Rightarrow> bool" where
  "scanned ns cs loc \<longleftrightarrow>
     (\<exists>c1 \<in> set cs. \<exists>cl \<in> set cs.
        dn1 loc = Some c1 \<and> d1 loc = distance (ns ! c1) \<and>
        ln1 loc = Some cl \<and> l1 loc = length_n (ns ! cl) \<and>
        (\<forall>c \<in> set cs. distance (ns ! c) \<le> distance (ns ! c1)) \<and>
        (\<forall>c \<in> set cs. length_n (ns ! c) \<le> length_n (ns ! cl)) \<and>
        (if length cs = 1 then d2 loc = 0 \<and> dn2 loc = None
         else (\<exists>c2 \<in> set cs. c2 \<noteq> c1 \<and> dn2 loc = Some c2 \<and> d2 loc = distance (ns ! c2) \<and>
                 (\<forall>c \<in> set cs. c \<noteq> c1 \<longrightarrow> distance (ns ! c) \<le> distance (ns ! c2)))))"

lemma scan_Nil [simp]: "scan ns [] = locals0"
  by (simp add: scan_def)

lemma scan_snoc [simp]: "scan ns (cs @ [c]) = note_kid (scan ns cs) (Some c) (ns ! c)"
  by (simp add: scan_def)

lemma scan_cong: "\<forall>c \<in> set cs. ns' ! c = ns ! c \<Longrightarrow> scan ns' cs = scan ns cs"
  by (induction cs rule: rev_induct) simp_all

lemma scanned_single:
  assumes "0 \<le> distance (ns ! c)" and "0 \<le> length_n (ns ! c)"
  shows "scanned ns [c] (note_kid locals0 (Some c) (ns ! c))"
  using assms by (simp add: scanned_def note_kid_def locals0_def)

lemma scanned_snoc:
  assumes sc: "scanned ns cs loc" and fresh: "c \<notin> set cs"
    and nn: "0 \<le> distance (ns ! c)"
    and nns: "\<forall>c' \<in> set cs. 0 \<le> distance (ns ! c')"
  shows "scanned ns (cs @ [c]) (note_kid loc (Some c) (ns ! c))"
proof -
  from sc obtain c1 cl where c1: "c1 \<in> set cs" and cl: "cl \<in> set cs"
    and dn1: "dn1 loc = Some c1" and d1: "d1 loc = distance (ns ! c1)"
    and ln1: "ln1 loc = Some cl" and l1: "l1 loc = length_n (ns ! cl)"
    and dmax: "\<forall>c' \<in> set cs. distance (ns ! c') \<le> distance (ns ! c1)"
    and lmax: "\<forall>c' \<in> set cs. length_n (ns ! c') \<le> length_n (ns ! cl)"
    and snd: "if length cs = 1 then d2 loc = 0 \<and> dn2 loc = None
         else (\<exists>c2 \<in> set cs. c2 \<noteq> c1 \<and> dn2 loc = Some c2 \<and> d2 loc = distance (ns ! c2) \<and>
                 (\<forall>c' \<in> set cs. c' \<noteq> c1 \<longrightarrow> distance (ns ! c') \<le> distance (ns ! c2)))"
    unfolding scanned_def by blast
  let ?loc = "note_kid loc (Some c) (ns ! c)"
  have len: "length (cs @ [c]) \<noteq> 1" using c1 by (cases cs) auto
  from fresh c1 cl have ne: "c \<noteq> c1" "c \<noteq> cl" by auto
  \<comment> \<open>the child of largest length\<close>
  have L: "\<exists>cl' \<in> set (cs @ [c]). ln1 ?loc = Some cl' \<and> l1 ?loc = length_n (ns ! cl') \<and>
             (\<forall>c' \<in> set (cs @ [c]). length_n (ns ! c') \<le> length_n (ns ! cl'))"
  proof (cases "length_n (ns ! c) \<ge> l1 loc")
    case True
    then have "ln1 ?loc = Some c" "l1 ?loc = length_n (ns ! c)"
      by (simp_all add: note_kid_def Let_def)
    moreover have "\<forall>c' \<in> set (cs @ [c]). length_n (ns ! c') \<le> length_n (ns ! c)"
      using True l1 lmax by fastforce
    ultimately show ?thesis by auto
  next
    case False
    then have "ln1 ?loc = Some cl" "l1 ?loc = length_n (ns ! cl)"
      using ln1 l1 by (simp_all add: note_kid_def Let_def)
    moreover have "\<forall>c' \<in> set (cs @ [c]). length_n (ns ! c') \<le> length_n (ns ! cl)"
      using False l1 lmax by fastforce
    ultimately show ?thesis using cl by auto
  qed
  \<comment> \<open>the two children of largest distance\<close>
  have D: "\<exists>c1' \<in> set (cs @ [c]). \<exists>c2' \<in> set (cs @ [c]).
             dn1 ?loc = Some c1' \<and> d1 ?loc = distance (ns ! c1') \<and>
             (\<forall>c' \<in> set (cs @ [c]). distance (ns ! c') \<le> distance (ns ! c1')) \<and>
             c2' \<noteq> c1' \<and> dn2 ?loc = Some c2' \<and> d2 ?loc = distance (ns ! c2') \<and>
             (\<forall>c' \<in> set (cs @ [c]). c' \<noteq> c1' \<longrightarrow> distance (ns ! c') \<le> distance (ns ! c2'))"
  proof (cases "distance (ns ! c) \<ge> d1 loc")
    case True
    then have v: "dn1 ?loc = Some c" "d1 ?loc = distance (ns ! c)"
      "dn2 ?loc = Some c1" "d2 ?loc = distance (ns ! c1)"
      using dn1 d1 by (simp_all add: note_kid_def Let_def)
    have "\<forall>c' \<in> set (cs @ [c]). distance (ns ! c') \<le> distance (ns ! c)"
      using True d1 dmax by fastforce
    moreover have "\<forall>c' \<in> set (cs @ [c]). c' \<noteq> c \<longrightarrow> distance (ns ! c') \<le> distance (ns ! c1)"
      using dmax by auto
    ultimately show ?thesis using v c1 ne by auto
  next
    case False
    note lt = False
    have big: "\<forall>c' \<in> set (cs @ [c]). distance (ns ! c') \<le> distance (ns ! c1)"
      using lt d1 dmax by fastforce
    show ?thesis
    proof (cases "distance (ns ! c) \<ge> d2 loc")
      case True
      then have v: "dn1 ?loc = Some c1" "d1 ?loc = distance (ns ! c1)"
        "dn2 ?loc = Some c" "d2 ?loc = distance (ns ! c)"
        using lt dn1 d1 by (simp_all add: note_kid_def Let_def)
      have "\<forall>c' \<in> set (cs @ [c]). c' \<noteq> c1 \<longrightarrow> distance (ns ! c') \<le> distance (ns ! c)"
      proof (cases "length cs = 1")
        case True
        with c1 have "set cs = {c1}" by (cases cs) auto
        then show ?thesis by auto
      next
        case False
        with snd obtain c2 where "d2 loc = distance (ns ! c2)"
          "\<forall>c' \<in> set cs. c' \<noteq> c1 \<longrightarrow> distance (ns ! c') \<le> distance (ns ! c2)" by auto
        with True show ?thesis by fastforce
      qed
      with v big c1 ne show ?thesis by auto
    next
      case False
      have "length cs \<noteq> 1"
      proof
        assume "length cs = 1"
        with snd have "d2 loc = 0" by simp
        with False nn show False by simp
      qed
      with snd obtain c2 where c2: "c2 \<in> set cs" "c2 \<noteq> c1" "dn2 loc = Some c2"
        "d2 loc = distance (ns ! c2)"
        "\<forall>c' \<in> set cs. c' \<noteq> c1 \<longrightarrow> distance (ns ! c') \<le> distance (ns ! c2)" by auto
      have v: "dn1 ?loc = Some c1" "d1 ?loc = distance (ns ! c1)"
        "dn2 ?loc = Some c2" "d2 ?loc = distance (ns ! c2)"
        using lt False dn1 d1 c2 by (simp_all add: note_kid_def Let_def)
      have "\<forall>c' \<in> set (cs @ [c]). c' \<noteq> c1 \<longrightarrow> distance (ns ! c') \<le> distance (ns ! c2)"
        using c2 False by fastforce
      with v big c1 c2 show ?thesis by auto
    qed
  qed
  from L D len show ?thesis
    unfolding scanned_def by (simp only: if_False) blast
qed

lemma scan_scanned:
  "cs \<noteq> [] \<Longrightarrow> distinct cs \<Longrightarrow>
   \<forall>c \<in> set cs. 0 \<le> distance (ns ! c) \<and> 0 \<le> length_n (ns ! c) \<Longrightarrow>
   scanned ns cs (scan ns cs)"
proof (induction cs rule: rev_induct)
  case Nil
  then show ?case by simp
next
  case (snoc c cs)
  show ?case
  proof (cases "cs = []")
    case True
    with snoc.prems scanned_single [of ns c] show ?thesis by (simp add: scan_def)
  next
    case False
    with snoc have "scanned ns cs (scan ns cs)" by simp
    from scanned_snoc [OF this] snoc.prems show ?thesis by simp
  qed
qed

subsection \<open>The end of \<^verbatim>\<open>analyse_tree\<close>\<close>

lemma combine_kids_rule:
  assumes a: "a < length ns" and sc: "scanned ns cs loc"
    and cs: "\<forall>c \<in> set cs. c < length ns \<and> c \<noteq> a \<and> 0 \<le> distance (ns ! c) \<and> 0 \<le> length_n (ns ! c)"
    and k: "n_kids (ns ! a) = int (length cs)"
  shows "\<exists>nd. combine_kids ns (Some a) loc = Inr (ns[a := nd]) \<and>
           n_kids nd = n_kids (ns ! a) \<and> kids nd = kids (ns ! a) \<and> exits nd = exits (ns ! a) \<and>
           inner_rule (ns[a := nd]) a cs \<and> 0 \<le> distance nd \<and> 0 \<le> length_n nd"
proof -
  from sc obtain c1 cl where c1: "c1 \<in> set cs" and cl: "cl \<in> set cs"
    and dn1: "dn1 loc = Some c1" and d1: "d1 loc = distance (ns ! c1)"
    and ln1: "ln1 loc = Some cl" and l1: "l1 loc = length_n (ns ! cl)"
    and dmax: "\<forall>c' \<in> set cs. distance (ns ! c') \<le> distance (ns ! c1)"
    and lmax: "\<forall>c' \<in> set cs. length_n (ns ! c') \<le> length_n (ns ! cl)"
    and snd: "if length cs = 1 then d2 loc = 0 \<and> dn2 loc = None
         else (\<exists>c2 \<in> set cs. c2 \<noteq> c1 \<and> dn2 loc = Some c2 \<and> d2 loc = distance (ns ! c2) \<and>
                 (\<forall>c' \<in> set cs. c' \<noteq> c1 \<longrightarrow> distance (ns ! c') \<le> distance (ns ! c2)))"
    unfolding scanned_def by blast
  from cs c1 cl have b1: "c1 < length ns" "c1 \<noteq> a" "0 \<le> distance (ns ! c1)"
    and bl: "cl < length ns" "cl \<noteq> a" "0 \<le> length_n (ns ! cl)" by auto
  define kk where "kk = int (length cs)"
  define far2 where "far2 = (case dn2 loc of None \<Rightarrow> Some a | Some b \<Rightarrow> furthest (ns ! b))"
  define through where "through \<longleftrightarrow> distance (ns ! c1) + kk + (d2 loc + kk) > length_n (ns ! cl)"
  define nd where "nd = (ns ! a)\<lparr>distance := distance (ns ! c1) + kk,
      furthest := furthest (ns ! c1),
      length_n := (if through then distance (ns ! c1) + kk + (d2 loc + kk) else length_n (ns ! cl)),
      first := (if through then furthest (ns ! c1) else first (ns ! cl)),
      second := (if through then far2 else second (ns ! cl))\<rparr>"
  have d2b: "dn2 loc = None \<or> (\<exists>c2. dn2 loc = Some c2 \<and> c2 < length ns \<and> c2 \<noteq> a)"
    using snd cs by (auto split: if_splits)
  have d2nn: "0 \<le> d2 loc"
    using snd cs by (auto split: if_splits)
  have eq: "combine_kids ns (Some a) loc = Inr (ns[a := nd])"
  proof (cases through)
    case True
    from d2b show ?thesis
    proof
      assume "dn2 loc = None"
      then show ?thesis
        using True a b1 bl dn1 d1 ln1 l1 k
        by (simp add: combine_kids_def Let_def nd_def far2_def through_def kk_def)
    next
      assume "\<exists>c2. dn2 loc = Some c2 \<and> c2 < length ns \<and> c2 \<noteq> a"
      then obtain c2 where "dn2 loc = Some c2" "c2 < length ns" "c2 \<noteq> a" by blast
      then show ?thesis
        using True a b1 bl dn1 d1 ln1 l1 k
        by (simp add: combine_kids_def Let_def nd_def far2_def through_def kk_def)
    qed
  next
    case False
    then show ?thesis
      using a b1 bl dn1 d1 ln1 l1 k
      by (simp add: combine_kids_def Let_def nd_def far2_def through_def kk_def)
  qed
  have keep: "n_kids nd = n_kids (ns ! a)" "kids nd = kids (ns ! a)" "exits nd = exits (ns ! a)"
    by (simp_all add: nd_def)
  have kk0: "0 \<le> kk" by (simp add: kk_def)
  have nn: "0 \<le> distance nd" "0 \<le> length_n nd"
    using b1 bl kk0 d2nn by (auto simp: nd_def)
  have at_a: "(ns[a := nd]) ! a = nd" using a by simp
  have at_c: "\<forall>c \<in> set cs. (ns[a := nd]) ! c = ns ! c" using cs by auto
  have second_part: "if length cs = 1 then d2 loc = 0 \<and> far2 = Some a
         else (\<exists>c2 \<in> set cs. c2 \<noteq> c1 \<and>
                 (\<forall>c \<in> set cs. c \<noteq> c1 \<longrightarrow> distance (ns ! c) \<le> distance (ns ! c2)) \<and>
                 d2 loc = distance (ns ! c2) \<and> far2 = furthest (ns ! c2))"
    using snd by (auto simp: far2_def split: if_splits)
  have fields: "distance nd = distance (ns ! c1) + kk \<and> furthest nd = furthest (ns ! c1) \<and>
            (if distance (ns ! c1) + kk + (d2 loc + kk) > length_n (ns ! cl)
             then length_n nd = distance (ns ! c1) + kk + (d2 loc + kk) \<and>
                  first nd = furthest (ns ! c1) \<and> second nd = far2
             else length_n nd = length_n (ns ! cl) \<and> first nd = first (ns ! cl) \<and>
                  second nd = second (ns ! cl))"
    by (simp add: nd_def through_def)
  have "inner_rule ns' a cs" if "ns' ! a = nd" "\<forall>c \<in> set cs. ns' ! c = ns ! c" for ns'
    unfolding inner_rule_def
    apply (rule bexI [OF _ c1])
    apply (rule bexI [OF _ cl])
    apply (rule exI [of _ "d2 loc"])
    apply (rule exI [of _ far2])
    using that dmax lmax second_part fields c1 cl
    apply (simp add: Let_def kk_def cong: if_cong)
    done
  from this [OF at_a at_c] eq keep nn show ?thesis by blast
qed

subsection \<open>The recursion\<close>

lemma analyse_kids_loop:
  assumes di: "distinct (addrs (Tree a ts))"
    and IH: "\<And>t ns. t \<in> set ts \<Longrightarrow> is_tree ns t \<Longrightarrow>
        \<exists>ns'. analyse_tree depth ns (Some (root t)) = Inr ns' \<and> same_shape ns ns' \<and>
              (\<forall>b < length ns. b \<notin> set (addrs t) \<longrightarrow> ns' ! b = ns ! b) \<and> analysed ns' t"
  shows "i \<le> length ts \<Longrightarrow> shaped ns (Tree a ts) \<Longrightarrow>
     \<forall>j. i \<le> j \<and> j < length ts \<longrightarrow> analysed ns (ts ! j) \<Longrightarrow>
     \<exists>ns'. analyse_kids depth ns (Some a) i (scan ns (rev (drop i (map root ts))))
              = Inr (ns', scan ns' (rev (map root ts))) \<and>
           same_shape ns ns' \<and>
           (\<forall>b < length ns. b \<notin> set (concat (map addrs ts)) \<longrightarrow> ns' ! b = ns ! b) \<and>
           (\<forall>t \<in> set ts. analysed ns' t)"
proof (induction i arbitrary: ns)
  case 0
  have "\<forall>t \<in> set ts. analysed ns t"
    using 0(3) by (auto simp: in_set_conv_nth)
  then show ?case by (simp add: same_shape_refl)
next
  case (Suc i)
  let ?t = "ts ! i"
  let ?r = "root ?t"
  from Suc.prems have i: "i < length ts" by simp
  then have tin: "?t \<in> set ts" by simp
  from Suc.prems(2) have a: "a < length ns" by simp
  from Suc.prems(2) have len6: "length (kids (ns ! a)) = 6" by simp
  from shaped_kids_le [OF Suc.prems(2)] i len6 have ik: "i < length (kids (ns ! a))" by simp
  have ptr: "kids (ns ! a) ! i = Some ?r"
    by (rule shaped_kid_ptr [OF Suc.prems(2) i])
  from di have dc: "distinct (concat (map addrs ts))" by simp
  have "shaped ns ?t" using Suc.prems(2) tin by simp
  moreover have "distinct (addrs ?t)"
    using distinct_concat_part [OF dc, of "addrs ?t"] tin by simp
  ultimately have "is_tree ns ?t" by (simp add: is_tree_def)
  from IH [OF tin this] obtain ns1
    where run: "analyse_tree depth ns (Some ?r) = Inr ns1"
      and ss: "same_shape ns ns1"
      and fr: "\<forall>b < length ns. b \<notin> set (addrs ?t) \<longrightarrow> ns1 ! b = ns ! b"
      and an: "analysed ns1 ?t" by blast
  from ss have len1: "length ns1 = length ns" by (simp add: same_shape_def)
  have rb: "?r < length ns"
    using shaped_bound [OF \<open>shaped ns ?t\<close> root_in_addrs] .
  \<comment> \<open>the subtrees of the other children are untouched\<close>
  have other: "\<forall>b \<in> set (addrs (ts ! j)). ns1 ! b = ns ! b" if "j < length ts" "j \<noteq> i" for j
  proof
    fix b assume b: "b \<in> set (addrs (ts ! j))"
    from distinct_concat_nth [OF dc, of j i] that i
    have "set (addrs (ts ! j)) \<inter> set (addrs ?t) = {}" by simp
    with b have "b \<notin> set (addrs ?t)" by auto
    moreover have "b < length ns"
      using shaped_bound [of ns "ts ! j" b] Suc.prems(2) that(1) b by simp
    ultimately show "ns1 ! b = ns ! b" using fr by simp
  qed
  have drop_eq: "drop i (map root ts) = ?r # drop (Suc i) (map root ts)"
    using i by (simp add: Cons_nth_drop_Suc [symmetric])
  have seen: "\<forall>c \<in> set (rev (drop (Suc i) (map root ts))). ns1 ! c = ns ! c"
  proof
    fix c assume "c \<in> set (rev (drop (Suc i) (map root ts)))"
    then obtain j where j: "Suc i \<le> j" "j < length ts" "c = root (ts ! j)"
      by (auto simp: in_set_conv_nth drop_map) (metis add_Suc_right le_add1 less_diff_conv add.commute)
    with other [of j] root_in_addrs [of "ts ! j"] show "ns1 ! c = ns ! c" by simp
  qed
  have loc: "note_kid (scan ns (rev (drop (Suc i) (map root ts)))) (Some ?r) (ns1 ! ?r)
        = scan ns1 (rev (drop i (map root ts)))"
    using scan_cong [OF seen] by (simp add: drop_eq)
  have sh1: "shaped ns1 (Tree a ts)"
    by (rule shaped_same_shape [OF Suc.prems(2) ss])
  have done1: "\<forall>j. i \<le> j \<and> j < length ts \<longrightarrow> analysed ns1 (ts ! j)"
  proof (intro allI impI)
    fix j assume j: "i \<le> j \<and> j < length ts"
    show "analysed ns1 (ts ! j)"
    proof (cases "j = i")
      case True
      with an show ?thesis by simp
    next
      case False
      with j Suc.prems(3) have "analysed ns (ts ! j)" by simp
      from analysed_frame [OF this] other [of j] j False show ?thesis by simp
    qed
  qed
  from Suc.IH [OF _ sh1 done1] i obtain ns'
    where rest: "analyse_kids depth ns1 (Some a) i (scan ns1 (rev (drop i (map root ts))))
              = Inr (ns', scan ns' (rev (map root ts)))"
      and ss': "same_shape ns1 ns'"
      and fr': "\<forall>b < length ns1. b \<notin> set (concat (map addrs ts)) \<longrightarrow> ns' ! b = ns1 ! b"
      and an': "\<forall>t \<in> set ts. analysed ns' t" by auto
  have "analyse_kids depth ns (Some a) (Suc i) (scan ns (rev (drop (Suc i) (map root ts))))
          = Inr (ns', scan ns' (rev (map root ts)))"
    using a ik ptr run rb len1 loc rest by (simp add: Let_def)
  moreover have "same_shape ns ns'"
    by (rule same_shape_trans [OF ss ss'])
  moreover have "\<forall>b < length ns. b \<notin> set (concat (map addrs ts)) \<longrightarrow> ns' ! b = ns ! b"
  proof (intro allI impI)
    fix b assume b: "b < length ns" "b \<notin> set (concat (map addrs ts))"
    with tin have "b \<notin> set (addrs ?t)" by auto
    with b fr fr' len1 show "ns' ! b = ns ! b" by simp
  qed
  ultimately show ?case using an' by blast
qed

lemma analyse_tree_tree:
  "is_tree ns t \<Longrightarrow> height t \<le> depth \<Longrightarrow>
     \<exists>ns'. analyse_tree depth ns (Some (root t)) = Inr ns' \<and> same_shape ns ns' \<and>
           (\<forall>b < length ns. b \<notin> set (addrs t) \<longrightarrow> ns' ! b = ns ! b) \<and> analysed ns' t"
proof (induction t arbitrary: ns depth)
  case (Tree a ts)
  from Tree.prems(2) obtain d where depth: "depth = Suc d" and hk: "foldr max (map height ts) 0 \<le> d"
    by (cases depth) auto
  from Tree.prems(1) have sh: "shaped ns (Tree a ts)" and di: "distinct (addrs (Tree a ts))"
    by (simp_all add: is_tree_def)
  from sh have a: "a < length ns" and nk: "n_kids (ns ! a) = int (length ts)" by simp_all
  show ?case
  proof (cases "ts = []")
    case True
    let ?nd = "(ns ! a)\<lparr>first := Some a, second := Some a, furthest := Some a,
                        length_n := 0, distance := 0\<rparr>"
    have "analyse_tree depth ns (Some (root (Tree a ts))) = Inr (ns[a := ?nd])"
      using a nk True depth by simp
    moreover have "same_shape ns (ns[a := ?nd])"
      using a by (auto simp: same_shape_def nth_list_update)
    moreover have "analysed (ns[a := ?nd]) (Tree a ts)"
      using True a by (simp add: leaf_rule_def)
    ultimately show ?thesis using True by auto
  next
    case False
    have IH: "\<exists>ns'. analyse_tree d ns (Some (root t)) = Inr ns' \<and> same_shape ns ns' \<and>
              (\<forall>b < length ns. b \<notin> set (addrs t) \<longrightarrow> ns' ! b = ns ! b) \<and> analysed ns' t"
      if "t \<in> set ts" "is_tree ns t" for t ns
      using Tree.IH [OF that] height_kid [OF that(1)] hk by simp
    have start: "\<forall>j. length ts \<le> j \<and> j < length ts \<longrightarrow> analysed ns (ts ! j)" by auto
    from analyse_kids_loop [where i = "length ts" and depth = d, OF di IH _ sh start] obtain ns1
      where loop: "analyse_kids d ns (Some a) (length ts) locals0
                     = Inr (ns1, scan ns1 (rev (map root ts)))"
        and ss: "same_shape ns ns1"
        and fr: "\<forall>b < length ns. b \<notin> set (concat (map addrs ts)) \<longrightarrow> ns1 ! b = ns ! b"
        and an: "\<forall>t \<in> set ts. analysed ns1 t" by auto
    let ?cs = "rev (map root ts)"
    from ss a nk have a1: "a < length ns1" and nk1: "n_kids (ns1 ! a) = int (length ?cs)"
      by (simp_all add: same_shape_def)
    have sh1: "shaped ns1 (Tree a ts)" by (rule shaped_same_shape [OF sh ss])
    from di have dc: "distinct (concat (map addrs ts))"
      and afresh: "a \<notin> set (concat (map addrs ts))" by simp_all
    have kid: "c < length ns1 \<and> c \<noteq> a \<and> 0 \<le> distance (ns1 ! c) \<and> 0 \<le> length_n (ns1 ! c)"
      if "c \<in> set ?cs" for c
    proof -
      from that obtain t where t: "t \<in> set ts" "c = root t" by auto
      then have "c \<in> set (concat (map addrs ts))" using root_in_addrs [of t] by auto
      with afresh have "c \<noteq> a" by auto
      moreover have "c < length ns1"
        using shaped_bound [of ns1 t c] sh1 t root_in_addrs [of t] by simp
      ultimately show ?thesis using analysed_nonneg [of ns1 t] an t by simp
    qed
    have "scanned ns1 ?cs (scan ns1 ?cs)"
      using False distinct_roots [OF dc] kid by (intro scan_scanned) auto
    from combine_kids_rule [OF a1 this _ nk1] kid obtain nd
      where comb: "combine_kids ns1 (Some a) (scan ns1 ?cs) = Inr (ns1[a := nd])"
        and keep: "n_kids nd = n_kids (ns1 ! a)" "kids nd = kids (ns1 ! a)" "exits nd = exits (ns1 ! a)"
        and rule: "inner_rule (ns1[a := nd]) a ?cs"
        and nn: "0 \<le> distance nd" "0 \<le> length_n nd" by blast
    let ?ns' = "ns1[a := nd]"
    have run: "analyse_tree depth ns (Some (root (Tree a ts))) = Inr ?ns'"
      using a nk False depth loop comb by simp
    have ss': "same_shape ns ?ns'"
      using ss keep a by (auto simp: same_shape_def nth_list_update)
    have fr': "\<forall>b < length ns. b \<notin> set (addrs (Tree a ts)) \<longrightarrow> ?ns' ! b = ns ! b"
      using fr by auto
    have kids_ok: "\<forall>t \<in> set ts. analysed ?ns' t"
    proof
      fix t assume t: "t \<in> set ts"
      have "\<forall>b \<in> set (addrs t). b \<noteq> a"
        using afresh t by auto
      then have "\<forall>b \<in> set (addrs t). ?ns' ! b = ns1 ! b"
        by (metis nth_list_update_neq)
      from analysed_frame [OF _ this] an t show "analysed ?ns' t" by simp
    qed
    have "analysed ?ns' (Tree a ts)"
      using False rule kids_ok nn a1 by (simp add: inner_rule_rev)
    with run ss' fr' show ?thesis by blast
  qed
qed

subsection \<open>The claims about \<^verbatim>\<open>analyse_tree\<close>\<close>

text \<open>
  Claim C3, as the code does it.  For every rooted tree whose \<^verbatim>\<open>n_kids\<close> and \<^verbatim>\<open>kids\<close> fields
  are final, and a call stack deep enough for the height of the tree, \<^verbatim>\<open>analyse_tree\<close>
  returns, changes neither \<^verbatim>\<open>n_kids\<close> nor \<^verbatim>\<open>kids\<close> nor \<^verbatim>\<open>exits\<close>, and leaves at every node of
  the tree: in a node without children, \<^verbatim>\<open>distance\<close> = \<^verbatim>\<open>length\<close> = 0 and \<^verbatim>\<open>first\<close>,
  \<^verbatim>\<open>second\<close>, \<^verbatim>\<open>furthest\<close> the node itself; in a node with \<open>k\<close> children, with \<open>c1\<close> a child
  of largest \<^verbatim>\<open>distance\<close> and \<open>cl\<close> one of largest \<^verbatim>\<open>length\<close> \<open>l1\<close>: \<^verbatim>\<open>distance\<close> is
  \<open>d1 = distance c1 + k\<close> and \<^verbatim>\<open>furthest\<close> is that of \<open>c1\<close>; if \<open>d1 + d2 > l1\<close> then
  \<^verbatim>\<open>length\<close> is \<open>d1 + d2\<close>, \<^verbatim>\<open>first\<close> is the \<^verbatim>\<open>furthest\<close> of \<open>c1\<close> and \<^verbatim>\<open>second\<close> is \<open>far2\<close>;
  otherwise \<^verbatim>\<open>length\<close>, \<^verbatim>\<open>first\<close> and \<^verbatim>\<open>second\<close> are those of \<open>cl\<close>.  With two children or
  more, \<open>d2 = distance c2 + k\<close> and \<open>far2\<close> is the \<^verbatim>\<open>furthest\<close> of \<open>c2\<close>, a second child,
  of largest \<^verbatim>\<open>distance\<close> among the children other than \<open>c1\<close>.  With one child, \<open>d2 = k = 1\<close>
  and \<open>far2\<close> is the node itself.
\<close>

theorem analyse_tree_rule:
  assumes "is_tree ns t" and "height t \<le> depth"
  shows "\<exists>ns'. analyse_tree depth ns (Some (root t)) = Inr ns' \<and> same_shape ns ns' \<and>
           analysed ns' t"
  using analyse_tree_tree [OF assms] by blast

theorem analyse_tree_rule_witness:
  "is_tree [inner_node [1, 2], leaf_node, leaf_node] (Tree 0 [Tree 1 [], Tree 2 []]) \<and>
   height (Tree 0 [Tree 1 [], Tree 2 []]) \<le> 2 \<and>
   (\<exists>ns'. analyse_tree 2 [inner_node [1, 2], leaf_node, leaf_node] (Some 0) = Inr ns' \<and>
          analysed ns' (Tree 0 [Tree 1 [], Tree 2 []]))"
proof -
  let ?ns = "[inner_node [1, 2], leaf_node, leaf_node]"
  let ?t = "Tree 0 [Tree 1 [], Tree 2 []]"
  have h1: "is_tree ?ns ?t"
    by (simp add: is_tree_def inner_node_def leaf_node_def)
  have h2: "height ?t \<le> 2" by simp
  from analyse_tree_rule [OF h1 h2] show ?thesis
    using h1 h2 by auto
qed

text \<open>
  Claim C3 as stated fails at a node with one child: there is no second largest child
  distance, and \<^verbatim>\<open>second\<close> is not the furthest leaf of a second child.  Node 0 with the single
  child 1, a leaf: \<^verbatim>\<open>length\<close> is \<open>(0 + 1) + (0 + 1) = 2\<close> and \<^verbatim>\<open>second\<close> is node 0 itself.
\<close>

theorem analyse_tree_one_child_counterexample:
  "analyse_tree 2 [inner_node [1], leaf_node] (Some 0) =
     Inr [inner_node [1]\<lparr>first := Some 1, second := Some 0, furthest := Some 1,
                          length_n := 2, distance := 1\<rparr>,
          leaf_node\<lparr>first := Some 1, second := Some 1, furthest := Some 1\<rparr>]"
  by (simp add: numeral_2_eq_2 inner_node_def leaf_node_def locals0_def note_kid_def
      combine_kids_def Let_def)

lemma is_tree_star: "k \<le> 6 \<Longrightarrow> is_tree (star k) (star_tree k)"
proof -
  assume k: "k \<le> 6"
  have c: "concat (map (\<lambda>i. [i]) xs) = xs" for xs :: "nat list"
    by (induction xs) simp_all
  have "concat (map addrs (map (\<lambda>i. Tree i []) [1 ..< Suc k])) = [1 ..< Suc k]"
    by (simp add: comp_def c)
  then have "distinct (addrs (star_tree k))"
    by (simp add: star_tree_def)
  moreover have "shaped (star k) (star_tree k)"
    using k by (auto simp: star_tree_def star_def inner_node_def leaf_node_def comp_def
        nth_Cons split: nat.splits)
  ultimately show ?thesis by (simp add: is_tree_def)
qed

lemma height_star: "height (star_tree k) \<le> 2"
proof -
  have "foldr max (map (\<lambda>i. Suc 0) xs) 0 \<le> Suc 0" for xs :: "nat list"
    by (induction xs) simp_all
  then show ?thesis by (simp add: star_tree_def comp_def)
qed

text \<open>
  Claim C4, as the code does it.  On the star whose root has \<open>k\<close> leaves as children
  (\<open>1 \<le> k \<le> 6\<close>, the size of \<^verbatim>\<open>kids\<close>), after \<^verbatim>\<open>analyse_tree\<close> on the root the \<^verbatim>\<open>distance\<close>
  field of the root is \<open>k\<close>: each edge from the root weighs the root's number of children.
  The \<^verbatim>\<open>distance\<close> field of every leaf is 0, the distance from the leaf to the furthest node
  of its own subtree.
\<close>

theorem analyse_star:
  assumes "1 \<le> k" and "k \<le> 6"
  shows "\<exists>ns'. analyse_tree 2 (star k) (Some 0) = Inr ns' \<and>
           distance (ns' ! 0) = int k \<and> (\<forall>i \<in> {1 .. k}. distance (ns' ! i) = 0)"
proof -
  from analyse_tree_tree [OF is_tree_star [OF assms(2)] height_star] obtain ns'
    where run: "analyse_tree 2 (star k) (Some 0) = Inr ns'"
      and an: "analysed ns' (star_tree k)"
    by (auto simp: star_tree_def)
  from an have leaves: "\<forall>i \<in> {1 .. k}. distance (ns' ! i) = 0"
    by (auto simp: star_tree_def leaf_rule_def)
  from assms(1) have ne: "[1 ..< Suc k] \<noteq> []" by simp
  from an ne have "inner_rule ns' 0 [1 ..< Suc k]"
    by (simp add: star_tree_def comp_def)
  then obtain c1 where "c1 \<in> set [1 ..< Suc k]"
    "distance (ns' ! 0) = distance (ns' ! c1) + int (length [1 ..< Suc k])"
    unfolding inner_rule_def Let_def by blast
  with leaves have "distance (ns' ! 0) = int k" by auto
  with run leaves show ?thesis by blast
qed

theorem analyse_star_witness:
  "(1::nat) \<le> 3 \<and> (3::nat) \<le> 6 \<and>
   (\<exists>ns'. analyse_tree 2 (star 3) (Some 0) = Inr ns' \<and> distance (ns' ! 0) = 3 \<and>
      distance (ns' ! 1) = 0 \<and> distance (ns' ! 2) = 0 \<and> distance (ns' ! 3) = 0)"
proof -
  have h: "(1::nat) \<le> 3" "(3::nat) \<le> 6" by simp_all
  from analyse_star [OF h] show ?thesis by auto
qed

text \<open>
  Claim C4 as stated fails: on the star with two leaves the \<^verbatim>\<open>distance\<close> field of each leaf
  is 0, not 2; it is the root whose \<^verbatim>\<open>distance\<close> is 2.
\<close>

theorem analyse_star_counterexample:
  "analyse_tree 2 (star 2) (Some 0) =
     Inr [inner_node [1, 2]\<lparr>first := Some 1, second := Some 2, furthest := Some 1,
                             length_n := 4, distance := 2\<rparr>,
          leaf_node\<lparr>first := Some 1, second := Some 1, furthest := Some 1, distance := 0\<rparr>,
          leaf_node\<lparr>first := Some 2, second := Some 2, furthest := Some 2, distance := 0\<rparr>]"
  by (simp add: numeral_2_eq_2 star_def inner_node_def leaf_node_def locals0_def note_kid_def
      combine_kids_def Let_def)

text \<open>
  Claim C10.  At a node \<open>a\<close> with exactly one child \<open>c\<close>, \<open>d1\<close> is the child's \<^verbatim>\<open>distance\<close>
  plus 1 and \<open>d2\<close> is 1, the child count alone.  Whenever the branch \<open>d1 + d2 > l1\<close> is
  taken, \<^verbatim>\<open>analyse_tree\<close> sets the \<^verbatim>\<open>second\<close> field of \<open>a\<close> to \<open>a\<close> itself, a node that has a
  child and so is no leaf.  Hence the pair (\<^verbatim>\<open>first\<close>, \<^verbatim>\<open>second\<close>) at the root need not be two
  leaves.
\<close>

theorem analyse_tree_single_child:
  assumes "is_tree ns (Tree a [t])" and "height (Tree a [t]) \<le> depth"
  shows "\<exists>ns'. analyse_tree depth ns (Some a) = Inr ns' \<and> n_kids (ns' ! a) = 1 \<and>
           distance (ns' ! a) = distance (ns' ! root t) + 1 \<and>
           (distance (ns' ! root t) + 1 + 1 > length_n (ns' ! root t) \<longrightarrow>
              second (ns' ! a) = Some a \<and> length_n (ns' ! a) = distance (ns' ! root t) + 1 + 1)"
proof -
  from analyse_tree_tree [OF assms] obtain ns'
    where run: "analyse_tree depth ns (Some a) = Inr ns'"
      and ss: "same_shape ns ns'"
      and an: "analysed ns' (Tree a [t])" by auto
  from assms(1) have "a < length ns" "n_kids (ns ! a) = 1"
    by (simp_all add: is_tree_def)
  with ss have nk: "n_kids (ns' ! a) = 1" by (simp add: same_shape_def)
  from an have "inner_rule ns' a [root t]" by simp
  then have "distance (ns' ! a) = distance (ns' ! root t) + 1 \<and>
           (distance (ns' ! root t) + 1 + 1 > length_n (ns' ! root t) \<longrightarrow>
              second (ns' ! a) = Some a \<and> length_n (ns' ! a) = distance (ns' ! root t) + 1 + 1)"
    by (auto simp: inner_rule_def Let_def split: if_splits)
  with run nk show ?thesis by blast
qed

theorem analyse_tree_single_child_witness:
  "is_tree [inner_node [1], leaf_node] (Tree 0 [Tree 1 []]) \<and>
   height (Tree 0 [Tree 1 []]) \<le> 2 \<and>
   (\<exists>ns'. analyse_tree 2 [inner_node [1], leaf_node] (Some 0) = Inr ns' \<and>
      n_kids (ns' ! 0) = 1 \<and> second (ns' ! 0) = Some 0 \<and> first (ns' ! 0) = Some 1)"
proof -
  let ?ns = "[inner_node [1], leaf_node]"
  have h1: "is_tree ?ns (Tree 0 [Tree 1 []])"
    by (simp add: is_tree_def inner_node_def leaf_node_def)
  have h2: "height (Tree 0 [Tree 1 []]) \<le> 2" by simp
  from analyse_tree_single_child [OF h1 h2] obtain ns'
    where "analyse_tree 2 ?ns (Some 0) = Inr ns'" by blast
  then have "n_kids (ns' ! 0) = 1 \<and> second (ns' ! 0) = Some 0 \<and> first (ns' ! 0) = Some 1"
    by (auto simp: numeral_2_eq_2 inner_node_def leaf_node_def locals0_def note_kid_def
        combine_kids_def Let_def)
  with \<open>analyse_tree 2 ?ns (Some 0) = Inr ns'\<close> h1 h2 show ?thesis by blast
qed

section \<open>The grid of walls: \<^verbatim>\<open>wall\<close> and \<^verbatim>\<open>init_walls\<close>\<close>

text \<open>
  \<^verbatim>\<open>typedef struct wall { struct wall *next; int lower; int higher; } wall;\<close>
  The walls live in the array \<^verbatim>\<open>walls\<close>; a pointer to a wall is the index of the wall in
  that array, \<open>None\<close> the null pointer.  The field \<^verbatim>\<open>next\<close> is \<open>nxt\<close> here.
\<close>

record wall =
  nxt :: "nat option"
  lower :: int
  higher :: int

text \<open>
  \<^verbatim>\<open>e->next=e+1; e->lower=...; e->higher=...; ++e;\<close> where \<open>e\<close> points to the entry after
  the walls \<open>ws\<close> written so far, in a block of \<open>sz\<close> walls.  Writing past the block is a
  fault.
\<close>

definition emit :: "nat \<Rightarrow> wall list \<Rightarrow> int \<Rightarrow> int \<Rightarrow> error + wall list" where
  "emit sz ws lo hi =
     (if length ws < sz
      then Inr (ws @ [\<lparr>nxt = Some (Suc (length ws)), lower = lo, higher = hi\<rparr>])
      else Inl OutOfBounds)"

text \<open>
  The body of the inner loop, at cell \<open>(i, j)\<close> whose number is \<^verbatim>\<open>this\<close>:
  \<^verbatim>\<open>if (i>0 && (j<n-1 || !(i&1))) { ... e->lower=this; e->higher=this-n+(i&1); ++e; }
  if (j<n-1) { ... e->lower=this; e->higher=this+1; ++e; }
  if (i<m-1 && (j<n-1 || !(i&1))) { ... e->lower=this; e->higher=this+n+(i&1); ++e; }
  ++this;\<close>
\<close>

definition cell_step :: "nat \<Rightarrow> int \<Rightarrow> int \<Rightarrow> int \<Rightarrow> int \<Rightarrow> wall list \<times> int
                           \<Rightarrow> error + (wall list \<times> int)" where
  "cell_step sz m n i j st =
     (case st of (ws, this) \<Rightarrow>
      ebind (if i > 0 \<and> (j < n - 1 \<or> \<not> (i AND 1 \<noteq> 0))
             then emit sz ws this (this - n + (i AND 1)) else Inr ws) (\<lambda>ws1.
      ebind (if j < n - 1
             then emit sz ws1 this (this + 1) else Inr ws1) (\<lambda>ws2.
      ebind (if i < m - 1 \<and> (j < n - 1 \<or> \<not> (i AND 1 \<noteq> 0))
             then emit sz ws2 this (this + n + (i AND 1)) else Inr ws2) (\<lambda>ws3.
      Inr (ws3, this + 1)))))"

text \<open>\<^verbatim>\<open>for (j=0;j<n;++j) { ... }\<close>, from \<open>j\<close> on.\<close>

function col_loop :: "nat \<Rightarrow> int \<Rightarrow> int \<Rightarrow> int \<Rightarrow> int \<Rightarrow> wall list \<times> int
                          \<Rightarrow> error + (wall list \<times> int)" where
  "col_loop sz m n i j st =
     (if j < n
      then ebind (cell_step sz m n i j st) (\<lambda>st'. col_loop sz m n i (j + 1) st')
      else Inr st)"
  by pat_completeness auto
termination
  by (relation "measure (\<lambda>(sz, m, n, i, j, st). nat (n - j))") auto

text \<open>\<^verbatim>\<open>for (i=0;i<m;++i) { for (j=0;j<n;++j) { ... } }\<close>, from \<open>i\<close> on.\<close>

function row_loop :: "nat \<Rightarrow> int \<Rightarrow> int \<Rightarrow> int \<Rightarrow> wall list \<times> int
                          \<Rightarrow> error + (wall list \<times> int)" where
  "row_loop sz m n i st =
     (if i < m
      then ebind (col_loop sz m n i 0 st) (\<lambda>st'. row_loop sz m n (i + 1) st')
      else Inr st)"
  by pat_completeness auto
termination
  by (relation "measure (\<lambda>(sz, m, n, i, st). nat (m - i))") auto

text \<open>
  \<^verbatim>\<open>init_walls\<close>.  The block has \<^verbatim>\<open>3*m*n-m-m-n-n+1\<close> walls; \<open>malloc_ok\<close> says whether
  \<^verbatim>\<open>malloc\<close> returned it.  After the loops:
  \<^verbatim>\<open>if (e!=walls+3*m*n-m-m-n-n+1) { fprintf(stderr,"! Gareth screwed up ..."); exit(1); }
  (e-1)->next=0;\<close>
  The result is the array \<^verbatim>\<open>walls\<close>.
\<close>

definition init_walls :: "bool \<Rightarrow> int \<Rightarrow> int \<Rightarrow> error + wall list" where
  "init_walls malloc_ok m n =
     (let sz = nat (3 * m * n - m - m - n - n + 1) in
      if \<not> malloc_ok then Inl OutOfMemory
      else
        ebind (row_loop sz m n 0 ([], 0)) (\<lambda>(ws, this).
        if length ws \<noteq> sz then Inl WallCountMismatch
        else if ws = [] then Inl OutOfBounds
        else Inr (ws[length ws - 1 := (ws ! (length ws - 1))\<lparr>nxt := None\<rparr>])))"

subsection \<open>The hexagonal grid\<close>

text \<open>
  The comment above \<^verbatim>\<open>init_walls\<close>: columns are numbered \<open>0..m-1\<close>, each column contains
  the cells \<open>0..n-1\<close>; "cell (k,l) is adjacent to cells (k,l+-1) above and below; and to
  cells (k+-1,l) and (k+-1,l-1) if k is even, or to cells (k+-1,l) and (k+-1,l+1) if k is
  odd", as far as these cells exist.  "Cell (i,j) is number \<open>n*i+j\<close>".
\<close>

definition in_grid :: "int \<Rightarrow> int \<Rightarrow> int \<times> int \<Rightarrow> bool" where
  "in_grid m n c \<longleftrightarrow> 0 \<le> fst c \<and> fst c < m \<and> 0 \<le> snd c \<and> snd c < n"

definition adjacent :: "int \<Rightarrow> int \<Rightarrow> int \<times> int \<Rightarrow> int \<times> int \<Rightarrow> bool" where
  "adjacent m n c c' \<longleftrightarrow>
     in_grid m n c \<and> in_grid m n c' \<and>
     (case c of (k, l) \<Rightarrow> case c' of (k', l') \<Rightarrow>
        (k' = k \<and> (l' = l + 1 \<or> l' = l - 1)) \<or>
        ((k' = k + 1 \<or> k' = k - 1) \<and>
         (l' = l \<or> (if even k then l' = l - 1 else l' = l + 1))))"

definition cell_no :: "int \<Rightarrow> int \<times> int \<Rightarrow> int" where
  "cell_no n c = n * fst c + snd c"

text \<open>The two cells a wall lies between, as a set.\<close>

definition ends :: "wall \<Rightarrow> int set" where
  "ends w = {lower w, higher w}"

text \<open>
  The neighbours that the loop body looks at from cell \<open>c = (i, j)\<close>: the cell to the
  north-west, the cell to the north, the cell to the north-east.
\<close>

definition up_nbr :: "int \<Rightarrow> int \<Rightarrow> int \<times> int \<Rightarrow> int \<times> int \<Rightarrow> bool" where
  "up_nbr m n c c' \<longleftrightarrow>
     in_grid m n c \<and> in_grid m n c' \<and>
     (c' = (fst c - 1, snd c + fst c mod 2) \<or> c' = (fst c, snd c + 1) \<or>
      c' = (fst c + 1, snd c + fst c mod 2))"

definition cell_nbrs :: "int \<Rightarrow> int \<Rightarrow> int \<Rightarrow> int \<Rightarrow> ((int \<times> int) \<times> (int \<times> int)) list" where
  "cell_nbrs m n i j =
     (if i > 0 \<and> (j < n - 1 \<or> even i) then [((i, j), (i - 1, j + i mod 2))] else []) @
     (if j < n - 1 then [((i, j), (i, j + 1))] else []) @
     (if i < m - 1 \<and> (j < n - 1 \<or> even i) then [((i, j), (i + 1, j + i mod 2))] else [])"

definition col_nbrs :: "int \<Rightarrow> int \<Rightarrow> int \<Rightarrow> nat \<Rightarrow> ((int \<times> int) \<times> (int \<times> int)) list" where
  "col_nbrs m n i j0 = concat (map (\<lambda>j. cell_nbrs m n i (int j)) [j0 ..< nat n])"

definition grid_nbrs :: "int \<Rightarrow> int \<Rightarrow> nat \<Rightarrow> ((int \<times> int) \<times> (int \<times> int)) list" where
  "grid_nbrs m n i0 = concat (map (\<lambda>i. col_nbrs m n (int i) 0) [i0 ..< nat m])"

text \<open>The walls written for a list of pairs of cells, the first of them at index \<open>k\<close>.\<close>

fun mk_walls :: "int \<Rightarrow> nat \<Rightarrow> ((int \<times> int) \<times> (int \<times> int)) list \<Rightarrow> wall list" where
  "mk_walls n k [] = []"
| "mk_walls n k (p # ps) =
     \<lparr>nxt = Some (Suc k), lower = cell_no n (fst p), higher = cell_no n (snd p)\<rparr>
       # mk_walls n (Suc k) ps"

subsection \<open>What the loops write\<close>

declare col_loop.simps [simp del] row_loop.simps [simp del]

lemma mk_walls_append:
  "mk_walls n k (ps @ qs) = mk_walls n k ps @ mk_walls n (k + length ps) qs"
  by (induction ps arbitrary: k) simp_all

lemma length_mk_walls [simp]: "length (mk_walls n k ps) = length ps"
  by (induction ps arbitrary: k) simp_all

lemma mk_walls_Nil [simp]: "mk_walls n k ps = [] \<longleftrightarrow> ps = []"
  by (cases ps) simp_all

lemma emit_room:
  "length ws < sz \<Longrightarrow>
     emit sz ws (cell_no n c) (cell_no n c') = Inr (ws @ mk_walls n (length ws) [(c, c')])"
  by (simp add: emit_def)

lemma cell_step_eq:
  assumes "length ws + length (cell_nbrs m n i j) \<le> sz" and "this = n * i + j"
  shows "cell_step sz m n i j (ws, this)
           = Inr (ws @ mk_walls n (length ws) (cell_nbrs m n i j), this + 1)"
  using assms
  by (auto simp: cell_step_def cell_nbrs_def emit_def cell_no_def algebra_simps and_one_eq
      mod_2_eq_odd)

lemma col_nbrs_step:
  "0 \<le> j \<Longrightarrow> j < n \<Longrightarrow> col_nbrs m n i (nat j) = cell_nbrs m n i j @ col_nbrs m n i (nat (j + 1))"
proof -
  assume j: "0 \<le> j" "j < n"
  then have "[nat j ..< nat n] = nat j # [Suc (nat j) ..< nat n]"
    by (simp add: upt_conv_Cons)
  moreover from j have "nat (j + 1) = Suc (nat j)" by simp
  ultimately show ?thesis using j by (simp add: col_nbrs_def)
qed

lemma col_loop_eq:
  "0 \<le> j \<Longrightarrow> j \<le> n \<Longrightarrow> this = n * i + j \<Longrightarrow>
   length ws + length (col_nbrs m n i (nat j)) \<le> sz \<Longrightarrow>
   col_loop sz m n i j (ws, this)
     = Inr (ws @ mk_walls n (length ws) (col_nbrs m n i (nat j)), n * i + n)"
proof (induction "nat (n - j)" arbitrary: j ws this)
  case 0
  then have "j = n" by simp
  then show ?case
    using 0 by (subst col_loop.simps) (simp add: col_nbrs_def)
next
  case (Suc k)
  then have j: "0 \<le> j" "j < n" by simp_all
  note split = col_nbrs_step [OF j, of m i]
  let ?c = "cell_nbrs m n i j"
  let ?ws = "ws @ mk_walls n (length ws) ?c"
  have room: "length ws + length ?c \<le> sz"
    using Suc.prems(4) by (simp add: split)
  have step: "cell_step sz m n i j (ws, this) = Inr (?ws, this + 1)"
    by (rule cell_step_eq [OF room Suc.prems(3)])
  have "col_loop sz m n i (j + 1) (?ws, this + 1)
          = Inr (?ws @ mk_walls n (length ?ws) (col_nbrs m n i (nat (j + 1))), n * i + n)"
    using Suc.hyps(2) Suc.prems j by (intro Suc.hyps(1)) (simp_all add: split)
  then show ?case
    using j step by (subst col_loop.simps) (simp add: split mk_walls_append)
qed

lemma grid_nbrs_step:
  "0 \<le> i \<Longrightarrow> i < m \<Longrightarrow> grid_nbrs m n (nat i) = col_nbrs m n i 0 @ grid_nbrs m n (nat (i + 1))"
proof -
  assume i: "0 \<le> i" "i < m"
  then have "[nat i ..< nat m] = nat i # [Suc (nat i) ..< nat m]"
    by (simp add: upt_conv_Cons)
  moreover from i have "nat (i + 1) = Suc (nat i)" by simp
  ultimately show ?thesis using i by (simp add: grid_nbrs_def)
qed

lemma row_loop_eq:
  "0 \<le> n \<Longrightarrow> 0 \<le> i \<Longrightarrow> i \<le> m \<Longrightarrow> this = n * i \<Longrightarrow>
   length ws + length (grid_nbrs m n (nat i)) \<le> sz \<Longrightarrow>
   row_loop sz m n i (ws, this)
     = Inr (ws @ mk_walls n (length ws) (grid_nbrs m n (nat i)), n * m)"
proof (induction "nat (m - i)" arbitrary: i ws this)
  case 0
  then have "i = m" by simp
  then show ?case
    using 0 by (subst row_loop.simps) (simp add: grid_nbrs_def)
next
  case (Suc k)
  then have i: "0 \<le> i" "i < m" by simp_all
  note split = grid_nbrs_step [OF i, of n]
  let ?c = "col_nbrs m n i 0"
  let ?ws = "ws @ mk_walls n (length ws) ?c"
  have room: "length ws + length (col_nbrs m n i (nat 0)) \<le> sz"
    using Suc.prems(5) by (simp add: split)
  have step: "col_loop sz m n i 0 (ws, this) = Inr (?ws, n * i + n)"
    using col_loop_eq [OF _ Suc.prems(1) _ room, of this] Suc.prems(4) by simp
  have "row_loop sz m n (i + 1) (?ws, n * i + n)
          = Inr (?ws @ mk_walls n (length ?ws) (grid_nbrs m n (nat (i + 1))), n * m)"
    using Suc.hyps(2) Suc.prems i
    by (intro Suc.hyps(1)) (simp_all add: split algebra_simps)
  then show ?case
    using i step by (subst row_loop.simps) (simp add: split mk_walls_append)
qed

lemma init_walls_eq:
  assumes "0 \<le> m" and "0 \<le> n"
    and "length (grid_nbrs m n 0) = nat (3 * m * n - m - m - n - n + 1)"
    and "grid_nbrs m n 0 \<noteq> []"
  shows "init_walls True m n =
           Inr ((mk_walls n 0 (grid_nbrs m n 0))
                  [length (grid_nbrs m n 0) - 1 :=
                     (mk_walls n 0 (grid_nbrs m n 0) ! (length (grid_nbrs m n 0) - 1))\<lparr>nxt := None\<rparr>])"
proof -
  let ?sz = "nat (3 * m * n - m - m - n - n + 1)"
  have "row_loop ?sz m n 0 ([], 0) = Inr ([] @ mk_walls n (length ([] :: wall list)) (grid_nbrs m n (nat 0)), n * m)"
    using assms by (intro row_loop_eq) simp_all
  then show ?thesis
    using assms(3,4) by (simp add: init_walls_def Let_def)
qed

subsection \<open>Counting the walls\<close>

lemma length_cell_nbrs:
  "int (length (cell_nbrs m n i j)) =
     (if i > 0 \<and> (j < n - 1 \<or> even i) then 1 else 0) + (if j < n - 1 then 1 else 0) +
     (if i < m - 1 \<and> (j < n - 1 \<or> even i) then 1 else 0)"
  by (simp add: cell_nbrs_def)

lemma length_col_prefix:
  "int k \<le> n - 1 \<Longrightarrow>
     int (length (concat (map (\<lambda>j. cell_nbrs m n i (int j)) [0 ..< k]))) =
       int k * ((if i > 0 then 1 else 0) + 1 + (if i < m - 1 then 1 else 0))"
proof (induction k)
  case 0
  show ?case by simp
next
  case (Suc k)
  then have "int k < n - 1" by simp
  then show ?case
    using Suc by (simp add: length_cell_nbrs algebra_simps)
qed

lemma length_col_nbrs:
  assumes "1 \<le> n"
  shows "int (length (col_nbrs m n i 0)) =
       (n - 1) * ((if i > 0 then 1 else 0) + 1 + (if i < m - 1 then 1 else 0)) +
       (if even i then (if i > 0 then 1 else 0) + (if i < m - 1 then 1 else 0) else 0)"
proof -
  from assms obtain k where k: "nat n = Suc k" by (cases "nat n") auto
  then have kn: "int k = n - 1" using assms by linarith
  have "col_nbrs m n i 0 =
          concat (map (\<lambda>j. cell_nbrs m n i (int j)) [0 ..< k]) @ cell_nbrs m n i (n - 1)"
    by (simp add: col_nbrs_def k kn)
  then show ?thesis
    using length_col_prefix [of k n m i] kn
    by (simp add: length_cell_nbrs)
qed

lemma length_grid_prefix:
  assumes "1 \<le> n"
  shows "int k \<le> m - 1 \<Longrightarrow>
     int (length (concat (map (\<lambda>i. col_nbrs m n (int i) 0) [0 ..< k]))) =
       (if k = 0 then 0 else (3 * int k - 1) * (n - 1) + int k - (if even k then 1 else 0))"
proof (induction k)
  case 0
  show ?case by simp
next
  case (Suc k)
  then have lt: "int k < m - 1" by simp
  show ?case
  proof (cases "k = 0")
    case True
    with lt show ?thesis
      by (simp add: length_col_nbrs [OF assms] algebra_simps)
  next
    case False
    with lt Suc show ?thesis
      by (cases "even k") (simp_all add: length_col_nbrs [OF assms] algebra_simps)
  qed
qed

lemma length_grid_nbrs:
  assumes "2 \<le> m" and "1 \<le> n"
  shows "int (length (grid_nbrs m n 0)) = 3 * m * n - m - m - n - n + 1"
proof -
  from assms obtain k where k: "nat m = Suc k" by (cases "nat m") auto
  then have km: "int k = m - 1" using assms by linarith
  then have k0: "k \<noteq> 0" using assms by auto
  have "grid_nbrs m n 0 =
          concat (map (\<lambda>i. col_nbrs m n (int i) 0) [0 ..< k]) @ col_nbrs m n (m - 1) 0"
    by (simp add: grid_nbrs_def k km)
  then have "int (length (grid_nbrs m n 0)) =
      ((3 * int k - 1) * (n - 1) + int k - (if even k then 1 else 0)) +
      ((n - 1) * 2 + (if even (m - 1) then 1 else 0))"
    using length_grid_prefix [OF assms(2), of k m] km k0 assms(1)
    by (simp add: length_col_nbrs [OF assms(2)])
  moreover have "even k = even (m - 1)"
    using km by (metis even_of_nat)
  ultimately show ?thesis
    using km by (simp add: algebra_simps)
qed

lemma wall_count_forms:
  "(m - 1) * (2 * n - 1) + m * (n - 1) = 3 * m * n - m - m - n - n + (1 :: int)"
  by (simp add: algebra_simps)

subsection \<open>Which walls are written\<close>

lemma set_cell_nbrs:
  "in_grid m n (i, j) \<Longrightarrow> set (cell_nbrs m n i j) = {(c, c'). c = (i, j) \<and> up_nbr m n c c'}"
  by (auto simp: cell_nbrs_def up_nbr_def in_grid_def mod_2_eq_odd)

lemma fst_cell_nbrs: "p \<in> set (cell_nbrs m n i j) \<Longrightarrow> fst p = (i, j)"
  by (auto simp: cell_nbrs_def split: if_splits)

lemma distinct_cell_nbrs: "distinct (cell_nbrs m n i j)"
  by (simp add: cell_nbrs_def)

lemma in_grid_nat: "in_grid m n c \<longleftrightarrow> (\<exists>i < nat m. \<exists>j < nat n. c = (int i, int j))"
proof
  assume g: "in_grid m n c"
  then have "nat (fst c) < nat m" "nat (snd c) < nat n" "c = (int (nat (fst c)), int (nat (snd c)))"
    by (auto simp: in_grid_def)
  then show "\<exists>i < nat m. \<exists>j < nat n. c = (int i, int j)" by blast
next
  assume "\<exists>i < nat m. \<exists>j < nat n. c = (int i, int j)"
  then show "in_grid m n c" by (auto simp: in_grid_def)
qed

lemma set_grid_nbrs: "set (grid_nbrs m n 0) = {(c, c'). up_nbr m n c c'}"
proof -
  have "set (grid_nbrs m n 0) =
          (\<Union>i \<in> {..< nat m}. \<Union>j \<in> {..< nat n}. set (cell_nbrs m n (int i) (int j)))"
    unfolding grid_nbrs_def col_nbrs_def
    by (simp add: image_image lessThan_atLeast0)
  also have "\<dots> = (\<Union>i \<in> {..< nat m}. \<Union>j \<in> {..< nat n}.
                     {(c, c'). c = (int i, int j) \<and> up_nbr m n c c'})"
    by (intro SUP_cong refl set_cell_nbrs) (auto simp: in_grid_def)
  also have "\<dots> = {(c, c'). up_nbr m n c c'}"
  proof (intro set_eqI iffI)
    fix p assume "p \<in> (\<Union>i \<in> {..< nat m}. \<Union>j \<in> {..< nat n}.
                     {(c, c'). c = (int i, int j) \<and> up_nbr m n c c'})"
    then show "p \<in> {(c, c'). up_nbr m n c c'}" by auto
  next
    fix p assume "p \<in> {(c, c'). up_nbr m n c c'}"
    then obtain c c' where p: "p = (c, c')" "up_nbr m n c c'" by auto
    then have "in_grid m n c" by (simp add: up_nbr_def)
    then obtain i j where "i < nat m" "j < nat n" "c = (int i, int j)"
      unfolding in_grid_nat by blast
    with p show "p \<in> (\<Union>i \<in> {..< nat m}. \<Union>j \<in> {..< nat n}.
                     {(c, c'). c = (int i, int j) \<and> up_nbr m n c c'})" by auto
  qed
  finally show ?thesis .
qed

lemma distinct_concat_map:
  "distinct xs \<Longrightarrow> (\<forall>x \<in> set xs. distinct (f x)) \<Longrightarrow>
   (\<forall>x \<in> set xs. \<forall>y \<in> set xs. x \<noteq> y \<longrightarrow> set (f x) \<inter> set (f y) = {}) \<Longrightarrow>
   distinct (concat (map f xs))"
  by (induction xs) auto

lemma distinct_col_nbrs: "distinct (col_nbrs m n i 0)"
  unfolding col_nbrs_def
proof (intro distinct_concat_map ballI impI)
  fix x y :: nat assume "x \<noteq> y"
  then show "set (cell_nbrs m n i (int x)) \<inter> set (cell_nbrs m n i (int y)) = {}"
    using fst_cell_nbrs [of _ m n i "int x"] fst_cell_nbrs [of _ m n i "int y"] by fastforce
qed (simp_all add: distinct_cell_nbrs)

lemma fst_col_nbrs: "p \<in> set (col_nbrs m n i 0) \<Longrightarrow> fst (fst p) = i"
  using fst_cell_nbrs by (fastforce simp: col_nbrs_def)

lemma distinct_grid_nbrs: "distinct (grid_nbrs m n 0)"
  unfolding grid_nbrs_def
proof (intro distinct_concat_map ballI impI)
  fix x y :: nat assume "x \<noteq> y"
  then show "set (col_nbrs m n (int x) 0) \<inter> set (col_nbrs m n (int y) 0) = {}"
    using fst_col_nbrs [of _ m n "int x"] fst_col_nbrs [of _ m n "int y"] by fastforce
qed (simp_all add: distinct_col_nbrs)

lemma adjacent_up_nbr: "adjacent m n c c' \<longleftrightarrow> up_nbr m n c c' \<or> up_nbr m n c' c"
proof -
  obtain k l k' l' where c: "c = (k, l)" "c' = (k', l')" by (cases c, cases c') auto
  have par: "k mod 2 = (if even k then 0 else 1)" "k' mod 2 = (if even k' then 0 else 1)"
    by (simp_all add: mod_2_eq_odd)
  have flip: "k' = k + 1 \<or> k' = k - 1 \<Longrightarrow> even k' \<longleftrightarrow> odd k" by auto
  show ?thesis
    unfolding adjacent_def up_nbr_def c
    using flip by (auto simp: par split: if_splits)
qed

lemma up_nbr_asym: "up_nbr m n c c' \<Longrightarrow> \<not> up_nbr m n c' c"
proof -
  obtain k l k' l' where c: "c = (k, l)" "c' = (k', l')" by (cases c, cases c') auto
  have par: "k mod 2 = (if even k then 0 else 1)" "k' mod 2 = (if even k' then 0 else 1)"
    by (simp_all add: mod_2_eq_odd)
  show "up_nbr m n c c' \<Longrightarrow> \<not> up_nbr m n c' c"
    unfolding up_nbr_def c
    by (auto simp: par split: if_splits)
qed

lemma cell_no_inj:
  assumes "in_grid m n c" and "in_grid m n c'" and "cell_no n c = cell_no n c'"
  shows "c = c'"
proof -
  from assms(1,2) have r: "0 \<le> snd c" "snd c < n" "0 \<le> snd c'" "snd c' < n"
    by (simp_all add: in_grid_def)
  then have n0: "n \<noteq> 0" by auto
  have "(snd c + n * fst c) div n = fst c + snd c div n"
    using n0 by (rule div_mult_self2)
  moreover have "(snd c' + n * fst c') div n = fst c' + snd c' div n"
    using n0 by (rule div_mult_self2)
  moreover have "snd c div n = 0" "snd c' div n = 0"
    using r by (simp_all add: div_pos_pos_trivial)
  ultimately have "fst c = fst c'"
    using assms(3) by (simp add: cell_no_def add.commute)
  with assms(3) show ?thesis
    by (simp add: cell_no_def prod_eq_iff)
qed

lemma cell_no_range: "in_grid m n c \<Longrightarrow> 0 \<le> cell_no n c \<and> cell_no n c < n * m"
proof -
  assume g: "in_grid m n c"
  then have r: "0 \<le> fst c" "fst c + 1 \<le> m" "0 \<le> snd c" "snd c < n" by (simp_all add: in_grid_def)
  then have n0: "0 \<le> n" by simp
  have "n * (fst c + 1) \<le> n * m" using r(2) n0 by (rule mult_left_mono)
  moreover have "0 \<le> n * fst c" using n0 r(1) by simp
  ultimately show ?thesis using r by (simp add: cell_no_def algebra_simps)
qed

lemma nth_mk_walls:
  "i < length ps \<Longrightarrow>
     mk_walls n k ps ! i =
       \<lparr>nxt = Some (Suc (k + i)), lower = cell_no n (fst (ps ! i)), higher = cell_no n (snd (ps ! i))\<rparr>"
proof (induction ps arbitrary: k i)
  case Nil
  then show ?case by simp
next
  case (Cons p ps)
  then show ?case by (cases i) simp_all
qed

text \<open>The array \<^verbatim>\<open>walls\<close> that \<^verbatim>\<open>init_walls\<close> leaves, entry by entry.\<close>

lemma init_walls_array:
  assumes "2 \<le> m" and "2 \<le> n"
  shows "\<exists>ws. init_walls True m n = Inr ws \<and> length ws = length (grid_nbrs m n 0) \<and>
           int (length ws) = 3 * m * n - m - m - n - n + 1 \<and>
           (\<forall>k < length ws.
              lower (ws ! k) = cell_no n (fst (grid_nbrs m n 0 ! k)) \<and>
              higher (ws ! k) = cell_no n (snd (grid_nbrs m n 0 ! k)) \<and>
              nxt (ws ! k) = (if Suc k < length ws then Some (Suc k) else None))"
proof -
  let ?ps = "grid_nbrs m n 0"
  let ?ws = "(mk_walls n 0 ?ps)[length ?ps - 1 := (mk_walls n 0 ?ps ! (length ?ps - 1))\<lparr>nxt := None\<rparr>]"
  from assms have len: "int (length ?ps) = 3 * m * n - m - m - n - n + 1"
    by (intro length_grid_nbrs) simp_all
  have "3 * m * n - m - m - n - n + 1 = (m - 1) * (2 * n - 1) + m * (n - 1)"
    by (simp add: algebra_simps)
  moreover have "0 < (m - 1) * (2 * n - 1)" using assms by (intro mult_pos_pos) simp_all
  moreover have "0 \<le> m * (n - 1)" using assms by (intro mult_nonneg_nonneg) simp_all
  ultimately have pos: "0 < 3 * m * n - m - m - n - n + 1" by linarith
  with len have ne: "?ps \<noteq> []" by auto
  from len have "length ?ps = nat (3 * m * n - m - m - n - n + 1)" by linarith
  from init_walls_eq [OF _ _ this ne] assms have run: "init_walls True m n = Inr ?ws" by simp
  have "lower (?ws ! k) = cell_no n (fst (?ps ! k)) \<and>
        higher (?ws ! k) = cell_no n (snd (?ps ! k)) \<and>
        nxt (?ws ! k) = (if Suc k < length ?ws then Some (Suc k) else None)"
    if "k < length ?ws" for k
  proof (cases "k = length ?ps - 1")
    case True
    with that show ?thesis by (simp add: nth_mk_walls)
  next
    case False
    with that have "Suc k < length ?ps" by simp
    with that False show ?thesis by (simp add: nth_mk_walls)
  qed
  with run len show ?thesis by (intro exI [of _ ?ws]) simp
qed

lemma ends_set_grid:
  "(\<lambda>p. {cell_no n (fst p), cell_no n (snd p)}) ` set (grid_nbrs m n 0) =
     {{cell_no n c, cell_no n c'} | c c'. adjacent m n c c'}"
proof (intro set_eqI iffI)
  fix s assume "s \<in> (\<lambda>p. {cell_no n (fst p), cell_no n (snd p)}) ` set (grid_nbrs m n 0)"
  then obtain c c' where "up_nbr m n c c'" "s = {cell_no n c, cell_no n c'}"
    by (auto simp: set_grid_nbrs)
  then show "s \<in> {{cell_no n c, cell_no n c'} | c c'. adjacent m n c c'}"
    using adjacent_up_nbr by blast
next
  fix s assume "s \<in> {{cell_no n c, cell_no n c'} | c c'. adjacent m n c c'}"
  then obtain c c' where s: "s = {cell_no n c, cell_no n c'}" and "adjacent m n c c'" by blast
  then have "up_nbr m n c c' \<or> up_nbr m n c' c" by (simp add: adjacent_up_nbr)
  then show "s \<in> (\<lambda>p. {cell_no n (fst p), cell_no n (snd p)}) ` set (grid_nbrs m n 0)"
  proof
    assume "up_nbr m n c c'"
    then have "(c, c') \<in> set (grid_nbrs m n 0)" by (simp add: set_grid_nbrs)
    then show ?thesis using s by force
  next
    assume "up_nbr m n c' c"
    then have "(c', c) \<in> set (grid_nbrs m n 0)" by (simp add: set_grid_nbrs)
    moreover have "s = {cell_no n c', cell_no n c}" using s by auto
    ultimately show ?thesis by force
  qed
qed

lemma ends_inj_grid:
  "inj_on (\<lambda>p. {cell_no n (fst p), cell_no n (snd p)}) (set (grid_nbrs m n 0))"
proof (rule inj_onI)
  fix p q
  assume p: "p \<in> set (grid_nbrs m n 0)" and q: "q \<in> set (grid_nbrs m n 0)"
    and eq: "{cell_no n (fst p), cell_no n (snd p)} = {cell_no n (fst q), cell_no n (snd q)}"
  from p q have up: "up_nbr m n (fst p) (snd p)" "up_nbr m n (fst q) (snd q)"
    by (auto simp: set_grid_nbrs)
  then have g: "in_grid m n (fst p)" "in_grid m n (snd p)" "in_grid m n (fst q)" "in_grid m n (snd q)"
    by (simp_all add: up_nbr_def)
  from eq consider
    "cell_no n (fst p) = cell_no n (fst q)" "cell_no n (snd p) = cell_no n (snd q)"
    | "cell_no n (fst p) = cell_no n (snd q)" "cell_no n (snd p) = cell_no n (fst q)"
    by (auto simp: doubleton_eq_iff)
  then show "p = q"
  proof cases
    case 1
    with g cell_no_inj have "fst p = fst q" "snd p = snd q" by blast+
    then show ?thesis by (simp add: prod_eq_iff)
  next
    case 2
    with g cell_no_inj have "fst p = snd q" "snd p = fst q" by blast+
    with up up_nbr_asym show ?thesis by metis
  qed
qed

text \<open>
  Claim C6.  For \<open>2 \<le> m, n \<le> 1000\<close> (every number computed stays below \<open>2\<^sup>3\<^sup>1\<close>),
  \<^verbatim>\<open>init_walls(m, n)\<close> returns the array of walls; their number is
  \<open>(m-1)*(2n-1) + m*(n-1) = 3mn-2m-2n+1\<close>; no two walls lie between the same two cells, and
  the pairs of cells with a wall between them are exactly the pairs of adjacent cells of the
  grid: every adjacent pair is enumerated exactly once.  Whether or not \<^verbatim>\<open>malloc\<close> succeeds,
  the exit after the comparison of the count with the formula is never taken.
\<close>

theorem init_walls_enumerates:
  assumes "2 \<le> m" and "m \<le> 1000" and "2 \<le> n" and "n \<le> 1000"
  shows "\<exists>ws. init_walls True m n = Inr ws \<and>
           int (length ws) = (m - 1) * (2 * n - 1) + m * (n - 1) \<and>
           int (length ws) = 3 * m * n - 2 * m - 2 * n + 1 \<and>
           distinct (map ends ws) \<and>
           set (map ends ws) = {{cell_no n c, cell_no n c'} | c c'. adjacent m n c c'} \<and>
           init_walls False m n \<noteq> Inl WallCountMismatch"
proof -
  let ?ps = "grid_nbrs m n 0"
  let ?g = "\<lambda>p. {cell_no n (fst p), cell_no n (snd p)}"
  from init_walls_array [OF assms(1,3)] obtain ws
    where run: "init_walls True m n = Inr ws" and len: "length ws = length ?ps"
      and cnt: "int (length ws) = 3 * m * n - m - m - n - n + 1"
      and ent: "\<forall>k < length ws. lower (ws ! k) = cell_no n (fst (?ps ! k)) \<and>
                  higher (ws ! k) = cell_no n (snd (?ps ! k))" by blast
  have "map ends ws = map ?g ?ps"
    using len ent by (intro nth_equalityI) (simp_all add: ends_def)
  moreover have "distinct (map ?g ?ps)"
    by (simp add: distinct_map distinct_grid_nbrs ends_inj_grid)
  moreover have "set (map ?g ?ps) = {{cell_no n c, cell_no n c'} | c c'. adjacent m n c c'}"
    using ends_set_grid [of n m] by simp
  moreover have "init_walls False m n \<noteq> Inl WallCountMismatch"
    by (simp add: init_walls_def Let_def)
  ultimately show ?thesis
    using run cnt by (intro exI [of _ ws]) (simp add: algebra_simps)
qed

theorem init_walls_enumerates_witness:
  "(2 :: int) \<le> 2 \<and> (2 :: int) \<le> 1000 \<and>
   (\<exists>ws. init_walls True 2 2 = Inr ws \<and> int (length ws) = 5 \<and> distinct (map ends ws))"
proof -
  have h: "(2 :: int) \<le> 2" "(2 :: int) \<le> 1000" by simp_all
  from init_walls_enumerates [OF h h] show ?thesis by auto
qed

section \<open>Shuffling the walls: \<^verbatim>\<open>shuffle_walls\<close>\<close>

text \<open>
  \<^verbatim>\<open>static wall *head1[1024]; static wall *head2[1024];\<close> are arrays of wall pointers, all
  null when the program starts.  \<^verbatim>\<open>Random()\<close> is \<^verbatim>\<open>rand\<close> or \<^verbatim>\<open>random\<close>; the model takes
  the sequence of numbers it returns as a parameter \<open>rnd\<close> (the \<open>c\<close>-th call returns
  \<open>rnd c\<close>) and counts the calls.

  The loop that all three passes share, for the list that starts at \<open>p\<close> and the buckets
  \<open>heads\<close>:
  \<^verbatim>\<open>while (p) { k=Random()&1023; q=p->next; p->next=head[k]; head[k]=p; p=q; }\<close>
\<close>

partial_function (option) distribute ::
  "(nat \<Rightarrow> int) \<Rightarrow> wall list \<Rightarrow> nat option list \<Rightarrow> nat \<Rightarrow> nat option
     \<Rightarrow> (wall list \<times> nat option list \<times> nat) result" where
  "distribute rnd ws heads c p =
     (case p of
        None \<Rightarrow> Some (Inr (ws, heads, c))
      | Some a \<Rightarrow>
          if a < length ws
          then (let k = nat (rnd c AND 1023) in
                if k < length heads
                then distribute rnd (ws[a := (ws ! a)\<lparr>nxt := heads ! k\<rparr>]) (heads[k := Some a])
                       (Suc c) (nxt (ws ! a))
                else Some (Inl OutOfBounds))
          else Some (Inl OutOfBounds))"

declare distribute.simps [code]

text \<open>
  The second and the third pass, from bucket \<open>i\<close> on, out of the buckets \<open>src\<close> into the
  buckets \<open>dst\<close>:
  \<^verbatim>\<open>for (i=0;i<1024;++i) { p=src[i]; src[i]=0; while (p) { ... dst ... } }\<close>
\<close>

partial_function (option) redistribute ::
  "(nat \<Rightarrow> int) \<Rightarrow> nat \<Rightarrow> wall list \<Rightarrow> nat option list \<Rightarrow> nat option list \<Rightarrow> nat
     \<Rightarrow> (wall list \<times> nat option list \<times> nat option list \<times> nat) result" where
  "redistribute rnd i ws src dst c =
     (if i < 1024
      then (if i < length src
            then rbind (distribute rnd ws dst c (src ! i)) (\<lambda>(ws', dst', c').
                   redistribute rnd (Suc i) ws' (src[i := None]) dst' c')
            else Some (Inl OutOfBounds))
      else Some (Inr (ws, src, dst, c)))"

declare redistribute.simps [code]

text \<open>\<^verbatim>\<open>while (p) { q=p; p=p->next; }\<close>; the value is \<open>q\<close>.\<close>

partial_function (option) walk_end ::
  "wall list \<Rightarrow> nat option \<Rightarrow> nat option \<Rightarrow> (nat option) result" where
  "walk_end ws q p =
     (case p of
        None \<Rightarrow> Some (Inr q)
      | Some a \<Rightarrow> if a < length ws then walk_end ws (Some a) (nxt (ws ! a))
                  else Some (Inl OutOfBounds))"

declare walk_end.simps [code]

text \<open>
  The last loop, from bucket \<open>i\<close> on; \<open>fw\<close> is \<^verbatim>\<open>first_wall\<close>:
  \<^verbatim>\<open>for (i=0;i<1024;++i) { p=head1[i]; if (!p) continue;
    if (q) { q->next=p; } else first_wall=p;
    while (p) { q=p; p=p->next; } }\<close>
\<close>

partial_function (option) link_all ::
  "nat \<Rightarrow> wall list \<Rightarrow> nat option list \<Rightarrow> nat option \<Rightarrow> nat option
     \<Rightarrow> (wall list \<times> nat option) result" where
  "link_all i ws heads fw q =
     (if i < 1024
      then (if i < length heads
            then (case heads ! i of
                    None \<Rightarrow> link_all (Suc i) ws heads fw q
                  | Some a \<Rightarrow>
                      rbind (case q of
                               None \<Rightarrow> Some (Inr (ws, Some a))
                             | Some b \<Rightarrow>
                                 if b < length ws
                                 then Some (Inr (ws[b := (ws ! b)\<lparr>nxt := Some a\<rparr>], fw))
                                 else Some (Inl OutOfBounds)) (\<lambda>(ws', fw').
                      rbind (walk_end ws' q (Some a)) (\<lambda>q'.
                      link_all (Suc i) ws' heads fw' q')))
            else Some (Inl OutOfBounds))
      else Some (Inr (ws, fw)))"

declare link_all.simps [code]

text \<open>
  \<^verbatim>\<open>shuffle_walls\<close>: the first pass starts at \<^verbatim>\<open>p=walls\<close>, the first entry of the array.
  The result is the array \<^verbatim>\<open>walls\<close> with its new \<^verbatim>\<open>next\<close> fields, and \<^verbatim>\<open>first_wall\<close>.
\<close>

definition shuffle_walls ::
  "(nat \<Rightarrow> int) \<Rightarrow> wall list \<Rightarrow> nat option \<Rightarrow> (wall list \<times> nat option) result" where
  "shuffle_walls rnd ws fw =
     rbind (distribute rnd ws (replicate 1024 None) 0 (Some 0)) (\<lambda>(ws1, head1, c1).
     rbind (redistribute rnd 0 ws1 head1 (replicate 1024 None) c1) (\<lambda>(ws2, head1', head2, c2).
     rbind (redistribute rnd 0 ws2 head2 head1' c2) (\<lambda>(ws3, head2', head1'', c3).
     link_all 0 ws3 head1'' fw None)))"

text \<open>
  \<open>llist ws p as\<close>: the walls linked through their \<^verbatim>\<open>next\<close> fields, from pointer \<open>p\<close> to the
  null pointer, are \<open>as\<close>, in this order.
\<close>

fun llist :: "wall list \<Rightarrow> nat option \<Rightarrow> nat list \<Rightarrow> bool" where
  "llist ws p [] \<longleftrightarrow> p = None"
| "llist ws p (a # as) \<longleftrightarrow> p = Some a \<and> a < length ws \<and> llist ws (nxt (ws ! a)) as"

text \<open>The fields of a wall that say where it is.\<close>

definition same_walls :: "wall list \<Rightarrow> wall list \<Rightarrow> bool" where
  "same_walls ws ws' \<longleftrightarrow>
     length ws' = length ws \<and>
     (\<forall>a < length ws. lower (ws' ! a) = lower (ws ! a) \<and> higher (ws' ! a) = higher (ws ! a))"

subsection \<open>Linked lists in the array of walls\<close>

lemma llist_frame:
  "length ws' = length ws \<Longrightarrow> \<forall>a \<in> set as. ws' ! a = ws ! a \<Longrightarrow> llist ws' p as = llist ws p as"
  by (induction as arbitrary: p) auto

lemma llist_unique: "llist ws p as \<Longrightarrow> llist ws p bs \<Longrightarrow> as = bs"
proof (induction as arbitrary: p bs)
  case Nil
  then show ?case by (cases bs) auto
next
  case (Cons a as)
  then show ?case by (cases bs) auto
qed

lemma llist_suffix: "llist ws p (xs @ a # ys) \<Longrightarrow> llist ws (Some a) (a # ys)"
  by (induction xs arbitrary: p) auto

lemma llist_distinct: "llist ws p as \<Longrightarrow> distinct as"
proof (induction as arbitrary: p)
  case Nil
  show ?case by simp
next
  case (Cons a as)
  have "a \<notin> set as"
  proof
    assume "a \<in> set as"
    then obtain xs ys where as: "as = xs @ a # ys" by (auto simp: in_set_conv_decomp)
    with Cons.prems have "llist ws (Some a) ((a # xs) @ a # ys)" by simp
    from llist_suffix [OF this] Cons.prems have "a # ys = a # as"
      by (intro llist_unique [of ws "Some a"]) auto
    with as show False by simp
  qed
  with Cons show ?case by auto
qed

lemma llist_upd:
  "a \<notin> set as \<Longrightarrow> llist (ws[a := v]) p as = llist ws p as"
proof (rule llist_frame)
  assume "a \<notin> set as"
  then show "\<forall>b \<in> set as. ws[a := v] ! b = ws ! b"
    by (metis nth_list_update_neq)
qed simp

lemma llist_bound: "llist ws p as \<Longrightarrow> a \<in> set as \<Longrightarrow> a < length ws"
  by (induction as arbitrary: p) auto

lemma llist_last:
  "llist ws p as \<Longrightarrow> as \<noteq> [] \<Longrightarrow> last as < length ws \<and> nxt (ws ! last as) = None"
proof (induction as arbitrary: p)
  case Nil
  then show ?case by simp
next
  case (Cons a as)
  then show ?case by (cases as) auto
qed

lemma llist_append_link:
  "llist ws p xs \<Longrightarrow> xs \<noteq> [] \<Longrightarrow> llist ws (Some a) ys \<Longrightarrow> set xs \<inter> set ys = {} \<Longrightarrow>
     llist (ws[last xs := (ws ! last xs)\<lparr>nxt := Some a\<rparr>]) p (xs @ ys)"
proof (induction xs arbitrary: p)
  case Nil
  then show ?case by simp
next
  case (Cons x xs)
  show ?case
  proof (cases "xs = []")
    case True
    with Cons.prems have "x \<notin> set ys" by auto
    with Cons.prems True show ?thesis by (simp add: llist_upd)
  next
    case False
    from Cons.prems(1) have "distinct (x # xs)" by (rule llist_distinct)
    with False have ne: "last xs \<noteq> x" by auto
    from Cons.prems False have "llist (ws[last xs := (ws ! last xs)\<lparr>nxt := Some a\<rparr>])
        (nxt (ws ! x)) (xs @ ys)"
      by (intro Cons.IH) auto
    with Cons.prems(1) False ne show ?thesis by simp
  qed
qed

lemma walk_end_llist:
  "llist ws p ys \<Longrightarrow> walk_end ws q p = Some (Inr (if ys = [] then q else Some (last ys)))"
proof (induction ys arbitrary: p q)
  case Nil
  then show ?case by (subst walk_end.simps) simp
next
  case (Cons a ys)
  then have "walk_end ws (Some a) (nxt (ws ! a))
               = Some (Inr (if ys = [] then Some a else Some (last ys)))" by simp
  with Cons.prems show ?case by (subst walk_end.simps) simp
qed

lemma same_walls_refl: "same_walls ws ws"
  by (simp add: same_walls_def)

lemma same_walls_trans: "same_walls ws ws1 \<Longrightarrow> same_walls ws1 ws2 \<Longrightarrow> same_walls ws ws2"
  by (simp add: same_walls_def)

lemma same_walls_nxt: "same_walls ws (ws[a := (ws ! a)\<lparr>nxt := v\<rparr>])"
  by (cases "a < length ws") (auto simp: same_walls_def nth_list_update)

subsection \<open>Buckets\<close>

text \<open>The lists \<open>bs\<close> that the bucket heads point to.\<close>

definition buckets :: "wall list \<Rightarrow> nat option list \<Rightarrow> nat list list \<Rightarrow> bool" where
  "buckets ws heads bs \<longleftrightarrow>
     length bs = length heads \<and> (\<forall>k < length heads. llist ws (heads ! k) (bs ! k))"

lemma mset_concat_push:
  "k < length bs \<Longrightarrow> mset (concat (bs[k := a # bs ! k])) = add_mset a (mset (concat bs))"
proof (induction bs arbitrary: k)
  case Nil
  then show ?case by simp
next
  case (Cons b bs)
  then show ?case by (cases k) simp_all
qed

lemma mset_concat_clear:
  "k < length bs \<Longrightarrow> mset (concat (bs[k := []])) + mset (bs ! k) = mset (concat bs)"
proof (induction bs arbitrary: k)
  case Nil
  then show ?case by simp
next
  case (Cons b bs)
  then show ?case by (cases k) simp_all
qed

lemma set_nth_concat: "k < length bs \<Longrightarrow> set (bs ! k) \<subseteq> set (concat bs)"
  using nth_mem by fastforce

lemma bucket_index: "nat (x AND 1023) < 1024" for x :: int
proof -
  have "x AND 1023 \<le> 1023" by (rule AND_upper2) simp
  then show ?thesis by linarith
qed

lemma distribute_ok:
  "llist ws p xs \<Longrightarrow> buckets ws heads bs \<Longrightarrow> distinct (xs @ concat bs) \<Longrightarrow>
   length heads = 1024 \<Longrightarrow>
   \<exists>ws' heads' bs'.
      distribute rnd ws heads c p = Some (Inr (ws', heads', c + length xs)) \<and>
      buckets ws' heads' bs' \<and> length heads' = 1024 \<and>
      mset (concat bs') = mset xs + mset (concat bs) \<and>
      same_walls ws ws' \<and> (\<forall>a. a \<notin> set xs \<longrightarrow> ws' ! a = ws ! a)"
proof (induction xs arbitrary: ws heads bs c p)
  case Nil
  then have "distribute rnd ws heads c p = Some (Inr (ws, heads, c))"
    by (subst distribute.simps) simp
  with Nil show ?case
    by (intro exI [of _ ws] exI [of _ heads] exI [of _ bs]) (simp add: same_walls_refl)
next
  case (Cons a as)
  define k where "k = nat (rnd c AND 1023)"
  have k: "k < length heads" "k < length bs"
    using bucket_index [of "rnd c"] Cons.prems(2,4) by (simp_all add: k_def buckets_def)
  from Cons.prems(1) have p: "p = Some a" and a: "a < length ws"
    and tl: "llist ws (nxt (ws ! a)) as" by simp_all
  let ?ws = "ws[a := (ws ! a)\<lparr>nxt := heads ! k\<rparr>]"
  let ?heads = "heads[k := Some a]"
  let ?bs = "bs[k := a # bs ! k]"
  from Cons.prems(3) have fresh: "a \<notin> set as" "a \<notin> set (concat bs)" by auto
  have nb: "a \<notin> set (bs ! j)" if "j < length bs" for j
    using fresh(2) set_nth_concat [OF that] by auto
  have tl': "llist ?ws (nxt (ws ! a)) as"
    using tl fresh(1) by (simp add: llist_upd)
  have bk: "buckets ?ws ?heads ?bs"
    unfolding buckets_def
  proof (intro conjI allI impI)
    show "length ?bs = length ?heads" using Cons.prems(2) by (simp add: buckets_def)
    fix j assume j: "j < length ?heads"
    then have jb: "j < length bs" using Cons.prems(2) by (simp add: buckets_def)
    have old: "llist ws (heads ! j) (bs ! j)" using Cons.prems(2) j by (simp add: buckets_def)
    show "llist ?ws (?heads ! j) (?bs ! j)"
    proof (cases "j = k")
      case True
      have "llist ?ws (heads ! k) (bs ! k)"
        using old True nb [OF jb] by (simp add: llist_upd)
      with True a k show ?thesis by simp
    next
      case False
      with old nb [OF jb] show ?thesis by (simp add: llist_upd)
    qed
  qed
  have "mset (as @ concat ?bs) = mset ((a # as) @ concat bs)"
    using k by (simp add: mset_concat_push)
  with Cons.prems(3) have di: "distinct (as @ concat ?bs)"
    using mset_eq_imp_distinct_iff by blast
  have len: "length ?heads = 1024" using Cons.prems(4) by simp
  from Cons.IH [OF tl' bk di len, of "Suc c"] obtain ws' heads' bs'
    where run: "distribute rnd ?ws ?heads (Suc c) (nxt (ws ! a))
                  = Some (Inr (ws', heads', Suc c + length as))"
      and bk': "buckets ws' heads' bs'" and len': "length heads' = 1024"
      and ms: "mset (concat bs') = mset as + mset (concat ?bs)"
      and sw: "same_walls ?ws ws'"
      and fr: "\<forall>b. b \<notin> set as \<longrightarrow> ws' ! b = ?ws ! b" by blast
  have "distribute rnd ws heads c p = Some (Inr (ws', heads', c + length (a # as)))"
    using p a k run by (subst distribute.simps) (simp add: k_def Let_def)
  moreover have "mset (concat bs') = mset (a # as) + mset (concat bs)"
    using ms k by (simp add: mset_concat_push)
  moreover have "same_walls ws ws'"
    using same_walls_trans [OF same_walls_nxt sw] .
  moreover have "\<forall>b. b \<notin> set (a # as) \<longrightarrow> ws' ! b = ws ! b"
    using fr by auto
  ultimately show ?case using bk' len' by blast
qed

lemma distinct_mset_eq: "mset xs = mset ys \<Longrightarrow> distinct xs \<Longrightarrow> distinct ys"
  using mset_eq_imp_distinct_iff by blast

lemma redistribute_ok:
  "buckets ws src sbs \<Longrightarrow> buckets ws dst dbs \<Longrightarrow> distinct (concat sbs @ concat dbs) \<Longrightarrow>
   length src = 1024 \<Longrightarrow> length dst = 1024 \<Longrightarrow> i \<le> 1024 \<Longrightarrow>
   \<exists>ws' src' dst' c' sbs' dbs'.
      redistribute rnd i ws src dst c = Some (Inr (ws', src', dst', c')) \<and>
      buckets ws' src' sbs' \<and> buckets ws' dst' dbs' \<and>
      length src' = 1024 \<and> length dst' = 1024 \<and>
      distinct (concat sbs' @ concat dbs') \<and>
      mset (concat sbs') + mset (concat dbs') = mset (concat sbs) + mset (concat dbs) \<and>
      (\<forall>j. i \<le> j \<and> j < 1024 \<longrightarrow> sbs' ! j = []) \<and>
      (\<forall>j < i. sbs' ! j = sbs ! j) \<and>
      same_walls ws ws'"
proof (induction "1024 - i" arbitrary: i ws src dst c sbs dbs)
  case 0
  then have "i = 1024" by simp
  then have "redistribute rnd i ws src dst c = Some (Inr (ws, src, dst, c))"
    by (subst redistribute.simps) simp
  with 0 \<open>i = 1024\<close> show ?case
    by (rule_tac x = ws in exI, rule_tac x = src in exI, rule_tac x = dst in exI,
        rule_tac x = c in exI, rule_tac x = sbs in exI, rule_tac x = dbs in exI)
      (auto simp: same_walls_refl)
next
  case (Suc n)
  then have i: "i < 1024" by simp
  from Suc.prems(1,4) have ls: "length sbs = 1024" by (simp add: buckets_def)
  let ?xs = "sbs ! i"
  let ?sbs = "sbs[i := []]"
  let ?src = "src[i := None]"
  have xs: "llist ws (src ! i) ?xs"
    using Suc.prems(1,4) i by (simp add: buckets_def)
  have split: "mset (concat ?sbs) + mset ?xs = mset (concat sbs)"
    using i ls by (intro mset_concat_clear) simp
  then have "mset (concat ?sbs @ ?xs @ concat dbs) = mset (concat sbs @ concat dbs)"
    by (simp add: ac_simps)
  from distinct_mset_eq [OF this [symmetric] Suc.prems(3)]
  have d3: "distinct (concat ?sbs @ ?xs @ concat dbs)" .
  then have dx: "distinct (?xs @ concat dbs)" by simp
  from distribute_ok [OF xs Suc.prems(2) dx Suc.prems(5), of rnd c] obtain ws1 dst1 dbs1
    where run: "distribute rnd ws dst c (src ! i) = Some (Inr (ws1, dst1, c + length ?xs))"
      and bd: "buckets ws1 dst1 dbs1" and ld: "length dst1 = 1024"
      and ms: "mset (concat dbs1) = mset ?xs + mset (concat dbs)"
      and sw: "same_walls ws ws1"
      and fr: "\<forall>a. a \<notin> set ?xs \<longrightarrow> ws1 ! a = ws ! a" by blast
  from sw have len1: "length ws1 = length ws" by (simp add: same_walls_def)
  have bsrc: "buckets ws1 ?src ?sbs"
    unfolding buckets_def
  proof (intro conjI allI impI)
    show "length ?sbs = length ?src" using ls Suc.prems(4) by simp
    fix j assume j: "j < length ?src"
    show "llist ws1 (?src ! j) (?sbs ! j)"
    proof (cases "j = i")
      case True
      with j ls i show ?thesis by simp
    next
      case False
      have old: "llist ws (src ! j) (sbs ! j)"
        using Suc.prems(1) j by (simp add: buckets_def)
      have "set (sbs ! j) \<subseteq> set (concat ?sbs)"
        using set_nth_concat [of j ?sbs] j ls Suc.prems(4) False by simp
      with d3 have "set (sbs ! j) \<inter> set ?xs = {}" by auto
      with fr have "\<forall>a \<in> set (sbs ! j). ws1 ! a = ws ! a" by auto
      from llist_frame [OF len1 this] old False show ?thesis by simp
    qed
  qed
  have "mset (concat ?sbs @ concat dbs1) = mset (concat ?sbs @ ?xs @ concat dbs)"
    using ms by simp
  from distinct_mset_eq [OF this [symmetric] d3]
  have d': "distinct (concat ?sbs @ concat dbs1)" .
  have n: "n = 1024 - Suc i" using Suc.hyps(2) by simp
  have lsrc: "length ?src = 1024" using Suc.prems(4) by simp
  from Suc.hyps(1) [OF n bsrc bd d' lsrc ld, of "c + length ?xs"] i
  obtain ws' src' dst' c' sbs' dbs'
    where rest: "redistribute rnd (Suc i) ws1 ?src dst1 (c + length ?xs)
                   = Some (Inr (ws', src', dst', c'))"
      and b1: "buckets ws' src' sbs'" and b2: "buckets ws' dst' dbs'"
      and l1: "length src' = 1024" and l2: "length dst' = 1024"
      and dd: "distinct (concat sbs' @ concat dbs')"
      and mm: "mset (concat sbs') + mset (concat dbs') = mset (concat ?sbs) + mset (concat dbs1)"
      and emp: "\<forall>j. Suc i \<le> j \<and> j < 1024 \<longrightarrow> sbs' ! j = []"
      and keep: "\<forall>j < Suc i. sbs' ! j = ?sbs ! j"
      and sw': "same_walls ws1 ws'" by auto
  have "redistribute rnd i ws src dst c = Some (Inr (ws', src', dst', c'))"
    using i Suc.prems(4) run rest by (subst redistribute.simps) (simp add: rbind_def)
  moreover have "mset (concat sbs') + mset (concat dbs') = mset (concat sbs) + mset (concat dbs)"
    using mm ms split by (simp add: ac_simps)
  moreover have "\<forall>j. i \<le> j \<and> j < 1024 \<longrightarrow> sbs' ! j = []"
  proof (intro allI impI)
    fix j assume j: "i \<le> j \<and> j < 1024"
    show "sbs' ! j = []"
    proof (cases "j = i")
      case True
      with keep ls i show ?thesis by simp
    next
      case False
      with j emp show ?thesis by simp
    qed
  qed
  moreover have "\<forall>j < i. sbs' ! j = sbs ! j"
    using keep by simp
  moreover have "same_walls ws ws'" by (rule same_walls_trans [OF sw sw'])
  ultimately show ?case using b1 b2 l1 l2 dd by blast
qed

lemma concat_all_Nil: "\<forall>j < length bs. bs ! j = [] \<Longrightarrow> concat bs = []"
  by (simp add: in_set_conv_nth) (metis in_set_conv_nth)

lemma concat_take_Suc: "i < length bs \<Longrightarrow> concat (take (Suc i) bs) = concat (take i bs) @ bs ! i"
  by (simp add: take_Suc_conv_app_nth)

lemma concat_take_sub: "set (concat (take i bs)) \<subseteq> set (concat bs)"
  using set_take_subset [of i bs] by auto

lemma distinct_take_nth:
  assumes "distinct (concat bs)" and "i < length bs"
  shows "set (concat (take i bs)) \<inter> set (bs ! i) = {}"
proof -
  have "concat bs = concat (take i bs) @ bs ! i @ concat (drop (Suc i) bs)"
    using assms(2) by (metis append_take_drop_id concat.simps(2) concat_append Cons_nth_drop_Suc)
  with assms(1) have "distinct (concat (take i bs) @ bs ! i @ concat (drop (Suc i) bs))"
    by simp
  then show ?thesis by auto
qed

text \<open>
  Before bucket \<open>i\<close> of the last loop: \<open>ds\<close> are the walls of the buckets before \<open>i\<close>.  If
  there are none, \<open>q\<close> is null; otherwise they are linked, from \<^verbatim>\<open>first_wall\<close> to \<open>q\<close>, the
  last of them.
\<close>

definition link_inv :: "wall list \<Rightarrow> nat option \<Rightarrow> nat option \<Rightarrow> nat list \<Rightarrow> bool" where
  "link_inv ws fw q ds \<longleftrightarrow> (if ds = [] then q = None else q = Some (last ds) \<and> llist ws fw ds)"

definition link_post :: "wall list \<Rightarrow> nat option \<Rightarrow> nat option \<Rightarrow> nat list \<Rightarrow> bool" where
  "link_post ws' fw' fw ds \<longleftrightarrow> (if ds = [] then fw' = fw else llist ws' fw' ds)"

lemma link_all_ok:
  "length heads = 1024 \<Longrightarrow> length bs = 1024 \<Longrightarrow> distinct (concat bs) \<Longrightarrow> i \<le> 1024 \<Longrightarrow>
   \<forall>j. i \<le> j \<and> j < 1024 \<longrightarrow> llist ws (heads ! j) (bs ! j) \<Longrightarrow>
   link_inv ws fw q (concat (take i bs)) \<Longrightarrow>
   \<exists>ws' fw'. link_all i ws heads fw q = Some (Inr (ws', fw')) \<and> same_walls ws ws' \<and>
      link_post ws' fw' fw (concat bs)"
proof (induction "1024 - i" arbitrary: i ws fw q)
  case 0
  then have i: "i = 1024" by simp
  then have run: "link_all i ws heads fw q = Some (Inr (ws, fw))"
    by (subst link_all.simps) simp
  from 0(3) i have "take i bs = bs" by simp
  with 0(7) have "link_post ws fw fw (concat bs)"
    by (auto simp: link_inv_def link_post_def)
  with run show ?case using same_walls_refl by blast
next
  case (Suc n)
  then have i: "i < 1024" by simp
  have n: "n = 1024 - Suc i" using Suc.hyps(2) by simp
  have i': "Suc i \<le> 1024" using i by simp
  let ?done = "concat (take i bs)"
  let ?ys = "bs ! i"
  have ib: "i < length bs" "i < length heads" using i Suc.prems(1,2) by simp_all
  have ys: "llist ws (heads ! i) ?ys" using Suc.prems(5) i by simp
  have step: "concat (take (Suc i) bs) = ?done @ ?ys" by (rule concat_take_Suc [OF ib(1)])
  have disj: "set ?done \<inter> set ?ys = {}" by (rule distinct_take_nth [OF Suc.prems(3) ib(1)])
  have later: "set (bs ! j) \<inter> set ?done = {}" if "Suc i \<le> j" "j < 1024" for j
  proof -
    from that(1) obtain d where "j = i + d" using less_eqE [of i j] by auto
    then have "take j bs = take i bs @ take d (drop i bs)" by (simp add: take_add)
    then have "set ?done \<subseteq> set (concat (take j bs))" by auto
    moreover have "set (concat (take j bs)) \<inter> set (bs ! j) = {}"
      using distinct_take_nth [OF Suc.prems(3), of j] that(2) Suc.prems(2) by simp
    ultimately show ?thesis by auto
  qed
  have rest0: "\<forall>j. Suc i \<le> j \<and> j < 1024 \<longrightarrow> llist ws (heads ! j) (bs ! j)"
    using Suc.prems(5) by simp
  show ?case
  proof (cases "heads ! i")
    case None
    with ys have e: "?ys = []" by (cases ?ys) auto
    have inv: "link_inv ws fw q (concat (take (Suc i) bs))"
      using Suc.prems(6) by (simp only: step e append_Nil2)
    from Suc.hyps(1) [OF n Suc.prems(1,2,3) i' rest0 inv]
    obtain ws' fw' where r: "link_all (Suc i) ws heads fw q = Some (Inr (ws', fw'))"
      "same_walls ws ws'" "link_post ws' fw' fw (concat bs)"
      by blast
    have "link_all i ws heads fw q = link_all (Suc i) ws heads fw q"
      using i ib None by (subst link_all.simps) simp
    with r show ?thesis by auto
  next
    case (Some a)
    with ys obtain rest where yr: "?ys = a # rest" by (cases ?ys) auto
    then have yne: "?ys \<noteq> []" by simp
    have "a \<in> set (concat bs)"
      using set_nth_concat [OF ib(1)] yr by (metis list.set_intros(1) subsetD)
    then have cne: "concat bs \<noteq> []"
      by (metis empty_iff list.set(1))
    have ys0: "llist ws (Some a) ?ys" using ys Some by simp
    show ?thesis
    proof (cases "?done = []")
      case True
      with Suc.prems(6) have q: "q = None" by (simp add: link_inv_def)
      have we: "walk_end ws q (Some a) = Some (Inr (Some (last ?ys)))"
        using walk_end_llist [OF ys0, of q] yne by simp
      have s1: "concat (take (Suc i) bs) = ?ys"
        by (simp only: step True append_Nil)
      have inv: "link_inv ws (Some a) (Some (last ?ys)) (concat (take (Suc i) bs))"
        using yne ys0 by (simp add: link_inv_def s1)
      from Suc.hyps(1) [OF n Suc.prems(1,2,3) i' rest0 inv]
      obtain ws' fw' where r: "link_all (Suc i) ws heads (Some a) (Some (last ?ys)) = Some (Inr (ws', fw'))"
        "same_walls ws ws'" "link_post ws' fw' (Some a) (concat bs)" by blast
      have "link_all i ws heads fw q = Some (Inr (ws', fw'))"
        using i ib Some q we r(1) by (subst link_all.simps) (simp add: rbind_def)
      moreover have "link_post ws' fw' fw (concat bs)"
        using r(3) cne unfolding link_post_def by (simp only: if_False)
      ultimately show ?thesis using r(2) by blast
    next
      case False
      with Suc.prems(6) have q: "q = Some (last ?done)" and dl: "llist ws fw ?done"
        by (simp_all add: link_inv_def)
      let ?b = "last ?done"
      let ?ws = "ws[?b := (ws ! ?b)\<lparr>nxt := Some a\<rparr>]"
      from llist_last [OF dl False] have b: "?b < length ws" by simp
      have bd: "?b \<in> set ?done" by (rule last_in_set [OF False])
      have joined: "llist ?ws fw (?done @ ?ys)"
        by (rule llist_append_link [OF dl False ys0 disj])
      have bnot: "?b \<notin> set ?ys" using bd disj by auto
      have ys': "llist ?ws (Some a) ?ys" using ys0 bnot by (simp add: llist_upd)
      have we: "walk_end ?ws q (Some a) = Some (Inr (Some (last ?ys)))"
        using walk_end_llist [OF ys', of q] yne by simp
      have inv: "link_inv ?ws fw (Some (last ?ys)) (concat (take (Suc i) bs))"
        using yne joined by (simp add: link_inv_def step)
      have rest_ok: "\<forall>j. Suc i \<le> j \<and> j < 1024 \<longrightarrow> llist ?ws (heads ! j) (bs ! j)"
      proof (intro allI impI)
        fix j assume j: "Suc i \<le> j \<and> j < 1024"
        with later [of j] bd have "?b \<notin> set (bs ! j)" by auto
        with rest0 j show "llist ?ws (heads ! j) (bs ! j)" by (simp add: llist_upd)
      qed
      from Suc.hyps(1) [OF n Suc.prems(1,2,3) i' rest_ok inv]
      obtain ws' fw' where r: "link_all (Suc i) ?ws heads fw (Some (last ?ys)) = Some (Inr (ws', fw'))"
        "same_walls ?ws ws'" "link_post ws' fw' fw (concat bs)" by blast
      have "link_all i ws heads fw q = Some (Inr (ws', fw'))"
        using i ib Some q b we r(1) by (subst link_all.simps) (simp add: rbind_def)
      moreover have "same_walls ws ws'"
        using same_walls_trans [OF same_walls_nxt r(2)] .
      ultimately show ?thesis using r(3) by blast
    qed
  qed
qed

lemma buckets_empty: "buckets ws (replicate k None) (replicate k [])"
  by (simp add: buckets_def)

lemma concat_replicate_Nil [simp]: "concat (replicate k []) = []"
  by (induction k) simp_all

text \<open>What \<^verbatim>\<open>shuffle_walls\<close> does to the list that starts at \<^verbatim>\<open>walls\<close>.\<close>

lemma shuffle_walls_ok:
  assumes "llist ws (Some 0) xs"
  shows "\<exists>ws' fw' ys. shuffle_walls rnd ws fw = Some (Inr (ws', fw')) \<and>
           llist ws' fw' ys \<and> mset ys = mset xs \<and> same_walls ws ws'"
proof -
  let ?e = "replicate 1024 (None :: nat option)"
  let ?n = "replicate 1024 ([] :: nat list)"
  have dx: "distinct xs" using assms by (rule llist_distinct)
  from assms have xne: "xs \<noteq> []" by (cases xs) auto
  \<comment> \<open>first pass\<close>
  from distribute_ok [OF assms buckets_empty, of 1024 rnd 0] dx
  obtain ws1 h1 b1 where p1: "distribute rnd ws ?e 0 (Some 0) = Some (Inr (ws1, h1, length xs))"
    and bk1: "buckets ws1 h1 b1" and l1: "length h1 = 1024"
    and m1: "mset (concat b1) = mset xs" and s1: "same_walls ws ws1" by auto
  have d1: "distinct (concat b1 @ concat ?n)"
    using distinct_mset_eq [OF m1 [symmetric] dx] by simp
  \<comment> \<open>second pass\<close>
  from redistribute_ok [OF bk1 buckets_empty d1 l1, of 0 rnd "length xs"]
  obtain ws2 h1' h2 c2 b1' b2
    where p2: "redistribute rnd 0 ws1 h1 ?e (length xs) = Some (Inr (ws2, h1', h2, c2))"
      and bk1': "buckets ws2 h1' b1'" and bk2: "buckets ws2 h2 b2"
      and l1': "length h1' = 1024" and l2: "length h2 = 1024"
      and d2: "distinct (concat b1' @ concat b2)"
      and m2: "mset (concat b1') + mset (concat b2) = mset (concat b1) + mset (concat ?n)"
      and e2: "\<forall>j. 0 \<le> j \<and> j < 1024 \<longrightarrow> b1' ! j = []"
      and s2: "same_walls ws1 ws2" by auto
  have "length b1' = 1024" using bk1' l1' by (simp add: buckets_def)
  with e2 have c1': "concat b1' = []" by (intro concat_all_Nil) simp
  have d2': "distinct (concat b2 @ concat b1')" using d2 unfolding c1' by simp
  \<comment> \<open>third pass\<close>
  from redistribute_ok [OF bk2 bk1' d2' l2 l1', of 0 rnd c2]
  obtain ws3 h2' h1'' c3 b2' b3
    where p3: "redistribute rnd 0 ws2 h2 h1' c2 = Some (Inr (ws3, h2', h1'', c3))"
      and bk3: "buckets ws3 h1'' b3" and bk2': "buckets ws3 h2' b2'"
      and l3: "length h1'' = 1024" and l2': "length h2' = 1024"
      and d3: "distinct (concat b2' @ concat b3)"
      and m3: "mset (concat b2') + mset (concat b3) = mset (concat b2) + mset (concat b1')"
      and e3: "\<forall>j. 0 \<le> j \<and> j < 1024 \<longrightarrow> b2' ! j = []"
      and s3: "same_walls ws2 ws3" by auto
  have "length b2' = 1024" using bk2' l2' by (simp add: buckets_def)
  with e3 have c2': "concat b2' = []" by (intro concat_all_Nil) simp
  have m: "mset (concat b3) = mset xs"
    using m1 m2 m3 unfolding c1' c2' by simp
  have lb3: "length b3 = 1024" using bk3 l3 by (simp add: buckets_def)
  have db3: "distinct (concat b3)" using d3 unfolding c2' by simp
  have all3: "\<forall>j. 0 \<le> j \<and> j < 1024 \<longrightarrow> llist ws3 (h1'' ! j) (b3 ! j)"
    using bk3 l3 by (simp add: buckets_def)
  have inv0: "link_inv ws3 fw None (concat (take 0 b3))" by (simp add: link_inv_def)
  \<comment> \<open>linking the buckets\<close>
  from link_all_ok [OF l3 lb3 db3 _ all3 inv0]
  obtain ws' fw' where p4: "link_all 0 ws3 h1'' fw None = Some (Inr (ws', fw'))"
    and s4: "same_walls ws3 ws'" and post: "link_post ws' fw' fw (concat b3)" by auto
  have "concat b3 \<noteq> []" using m xne by (metis mset_zero_iff)
  with post have "llist ws' fw' (concat b3)" unfolding link_post_def by (simp only: if_False)
  moreover have "shuffle_walls rnd ws fw = Some (Inr (ws', fw'))"
    using p1 p2 p3 p4 by (simp add: shuffle_walls_def rbind_def)
  moreover have "same_walls ws ws'"
    using same_walls_trans [OF same_walls_trans [OF same_walls_trans [OF s1 s2] s3] s4] .
  ultimately show ?thesis using m by blast
qed

text \<open>
  Claim C5.  For every array of walls in which the list that starts at \<^verbatim>\<open>walls\<close> and follows
  the \<^verbatim>\<open>next\<close> fields ends at a null pointer, and every sequence of random numbers,
  \<^verbatim>\<open>shuffle_walls\<close> returns; the list \<open>ys\<close> that then starts at \<^verbatim>\<open>first_wall\<close> is a
  permutation of the input list \<open>xs\<close>, each wall occurs in it exactly once, and no wall has
  changed its \<^verbatim>\<open>lower\<close> or \<^verbatim>\<open>higher\<close>.
\<close>

theorem shuffle_walls_permutes:
  assumes "llist ws (Some 0) xs"
  shows "\<exists>ws' fw' ys. shuffle_walls rnd ws fw = Some (Inr (ws', fw')) \<and>
           llist ws' fw' ys \<and> mset ys = mset xs \<and> distinct ys \<and> set ys = set xs \<and>
           same_walls ws ws'"
proof -
  from shuffle_walls_ok [OF assms, of rnd fw] obtain ws' fw' ys
    where r: "shuffle_walls rnd ws fw = Some (Inr (ws', fw'))" "llist ws' fw' ys"
      "mset ys = mset xs" "same_walls ws ws'" by blast
  from r(2) have "distinct ys" by (rule llist_distinct)
  moreover from r(3) have "set ys = set xs" by (rule mset_eq_setD)
  ultimately show ?thesis using r by blast
qed

theorem shuffle_walls_permutes_witness:
  "llist [\<lparr>nxt = Some 1, lower = 0, higher = 1\<rparr>, \<lparr>nxt = None, lower = 0, higher = 2\<rparr>]
         (Some 0) [0, 1] \<and>
   (\<exists>ws' fw' ys.
      shuffle_walls (\<lambda>c. 0) [\<lparr>nxt = Some 1, lower = 0, higher = 1\<rparr>,
                               \<lparr>nxt = None, lower = 0, higher = 2\<rparr>] None
        = Some (Inr (ws', fw')) \<and>
      llist ws' fw' ys \<and> mset ys = mset [0, 1])"
proof -
  let ?ws = "[\<lparr>nxt = Some 1, lower = 0, higher = 1\<rparr>, \<lparr>nxt = None, lower = 0, higher = 2\<rparr>]"
  have h: "llist ?ws (Some 0) [0, 1]" by simp
  from shuffle_walls_permutes [OF h, of "\<lambda>c. 0" None] show ?thesis
    using h by blast
qed

section \<open>Carving the maze: \<^verbatim>\<open>init_cells\<close> and \<^verbatim>\<open>create_maze\<close>\<close>

text \<open>
  \<^verbatim>\<open>enum { Up=1, Down=2, LDown=4, RDown=8, LEq=16, REq=32, LUp=64, RUp=128 };\<close>
\<close>

definition Up :: int where "Up = 1"
definition Down :: int where "Down = 2"
definition LDown :: int where "LDown = 4"
definition RDown :: int where "RDown = 8"
definition LEq :: int where "LEq = 16"
definition REq :: int where "REq = 32"
definition LUp :: int where "LUp = 64"
definition RUp :: int where "RUp = 128"

text \<open>
  \<^verbatim>\<open>init_cells(n)\<close>: \<^verbatim>\<open>cells\<close> is a block of \<open>n\<close> integers, all set to \<open>-1\<close> by \<^verbatim>\<open>memset\<close>;
  \<^verbatim>\<open>nodes\<close> is a block of \<open>n\<close> nodes from \<^verbatim>\<open>calloc\<close>, all fields zero.  The two flags say
  whether the allocations succeeded.
\<close>

definition init_cells :: "bool \<Rightarrow> bool \<Rightarrow> int \<Rightarrow> error + (int list \<times> node list)" where
  "init_cells cells_ok nodes_ok n =
     (if \<not> cells_ok then Inl OutOfMemory
      else if \<not> nodes_ok then Inl OutOfMemory
      else Inr (replicate (nat n) (- 1), replicate (nat n) leaf_node))"

text \<open>
  \<^verbatim>\<open>#define Add_exits(dh,dl) { nodes[p->higher].exits|=dh; nodes[p->lower].exits|=dl; }\<close>
\<close>

definition add_exits :: "node list \<Rightarrow> int \<Rightarrow> int \<Rightarrow> int \<Rightarrow> int \<Rightarrow> error + node list" where
  "add_exits ns hi lo dh dl =
     (if in_range ns hi
      then (let ns1 = ns[nat hi := (ns ! nat hi)\<lparr>exits := exits (ns ! nat hi) OR dh\<rparr>]
            in if in_range ns1 lo
               then Inr (ns1[nat lo := (ns1 ! nat lo)\<lparr>exits := exits (ns1 ! nat lo) OR dl\<rparr>])
               else Inl OutOfBounds)
      else Inl OutOfBounds)"

text \<open>
  The exits of a removed wall, from \<^verbatim>\<open>delta=p->higher-p->lower\<close>:
  \<^verbatim>\<open>if (delta==1) Add_exits(Down,Up)
  else if (delta>0) switch(delta-n_rows) {
    case -1: Add_exits(LUp,RDown); break;
    case 0: Add_exits(LEq,REq); break;
    case 1: Add_exits(LDown,RUp); }
  else switch(delta+n_rows) {
    case -1: Add_exits(RUp,LDown); break;
    case 0: Add_exits(REq,LEq); break;
    case 1: Add_exits(RDown,LUp); }\<close>
  A \<^verbatim>\<open>switch\<close> without a matching case does nothing.
\<close>

definition open_exits :: "int \<Rightarrow> node list \<Rightarrow> int \<Rightarrow> int \<Rightarrow> error + node list" where
  "open_exits n_rows ns lo hi =
     (let delta = hi - lo in
      if delta = 1 then add_exits ns hi lo Down Up
      else if delta > 0
      then (if delta - n_rows = - 1 then add_exits ns hi lo LUp RDown
            else if delta - n_rows = 0 then add_exits ns hi lo LEq REq
            else if delta - n_rows = 1 then add_exits ns hi lo LDown RUp
            else Inr ns)
      else (if delta + n_rows = - 1 then add_exits ns hi lo RUp LDown
            else if delta + n_rows = 0 then add_exits ns hi lo REq LEq
            else if delta + n_rows = 1 then add_exits ns hi lo RDown LUp
            else Inr ns))"

text \<open>
  The loop of \<^verbatim>\<open>create_maze\<close>, with the globals \<^verbatim>\<open>cells\<close>, \<^verbatim>\<open>nodes\<close>, \<^verbatim>\<open>walls\<close>,
  \<^verbatim>\<open>first_wall\<close> (here \<open>cs\<close>, \<open>ns\<close>, \<open>ws\<close>, \<open>fw\<close>) and the locals \<open>q\<close> and \<open>p\<close>:
  \<^verbatim>\<open>while (p) {
    x=base(p->lower); y=base(p->higher);
    if (x!=y) { unify(x,y); ... Add_exits ... }
    else { if (q) q->next=p; else first_wall=p; q=p; }
    p=p->next; }\<close>
\<close>

partial_function (option) carve ::
  "int \<Rightarrow> int list \<Rightarrow> node list \<Rightarrow> wall list \<Rightarrow> nat option \<Rightarrow> nat option \<Rightarrow> nat option
     \<Rightarrow> (int list \<times> node list \<times> wall list \<times> nat option \<times> nat option) result" where
  "carve n_rows cs ns ws fw q p =
     (case p of
        None \<Rightarrow> Some (Inr (cs, ns, ws, fw, q))
      | Some a \<Rightarrow>
          if a < length ws
          then
            rbind (base cs (lower (ws ! a))) (\<lambda>(x, cs1).
            rbind (base cs1 (higher (ws ! a))) (\<lambda>(y, cs2).
            if x \<noteq> y
            then
              rbind (Some (unify cs2 x y)) (\<lambda>cs3.
              rbind (Some (open_exits n_rows ns (lower (ws ! a)) (higher (ws ! a)))) (\<lambda>ns1.
              carve n_rows cs3 ns1 ws fw q (nxt (ws ! a))))
            else
              (case q of
                 Some b \<Rightarrow>
                   if b < length ws
                   then (let ws1 = ws[b := (ws ! b)\<lparr>nxt := Some a\<rparr>]
                         in carve n_rows cs2 ns ws1 fw (Some a) (nxt (ws1 ! a)))
                   else Some (Inl OutOfBounds)
               | None \<Rightarrow> carve n_rows cs2 ns ws (Some a) (Some a) (nxt (ws ! a)))))
          else Some (Inl OutOfBounds))"

declare carve.simps [code]

text \<open>
  \<^verbatim>\<open>create_maze\<close>: \<^verbatim>\<open>p=first_wall; q=0;\<close>, the loop, and then \<^verbatim>\<open>q->next=0;\<close>, a fault when
  \<open>q\<close> is still null.
\<close>

definition create_maze ::
  "int \<Rightarrow> int list \<Rightarrow> node list \<Rightarrow> wall list \<Rightarrow> nat option
     \<Rightarrow> (int list \<times> node list \<times> wall list \<times> nat option) result" where
  "create_maze n_rows cs ns ws fw =
     rbind (carve n_rows cs ns ws fw None fw) (\<lambda>(cs', ns', ws', fw', q).
       case q of
         None \<Rightarrow> Some (Inl NullPointer)
       | Some b \<Rightarrow>
           if b < length ws'
           then Some (Inr (cs', ns', ws'[b := (ws' ! b)\<lparr>nxt := None\<rparr>], fw'))
           else Some (Inl OutOfBounds))"

text \<open>
  \<^verbatim>\<open>main\<close>, from \<^verbatim>\<open>init_cells(n_rows*n_columns)\<close> to \<^verbatim>\<open>create_maze()\<close>, for
  \<^verbatim>\<open>n_columns\<close> = \<open>m\<close> and \<^verbatim>\<open>n_rows\<close> = \<open>n\<close>, when no allocation fails.  \<^verbatim>\<open>first_wall\<close> is null
  when the program starts.
\<close>

definition make_maze ::
  "(nat \<Rightarrow> int) \<Rightarrow> int \<Rightarrow> int \<Rightarrow> (int list \<times> node list \<times> wall list \<times> nat option) result" where
  "make_maze rnd m n =
     rbind (Some (init_cells True True (n * m))) (\<lambda>(cs, ns).
     rbind (Some (init_walls True m n)) (\<lambda>ws.
     rbind (shuffle_walls rnd ws None) (\<lambda>(ws1, fw).
     create_maze n cs ns ws1 fw)))"

subsection \<open>Components, exits and the graph of the maze\<close>

text \<open>The roots of the disjoint-set forest: one for each component.\<close>

definition roots :: "int list \<Rightarrow> int set" where
  "roots cs = {c. in_range cs c \<and> cs ! nat c < 0}"

text \<open>
  The exits as \<^verbatim>\<open>build_tree\<close> reads them: from the node of cell \<open>c\<close>, bit \<^verbatim>\<open>LDown\<close> leads to
  cell \<open>c - n_rows - 1\<close>, \<^verbatim>\<open>LEq\<close> to \<open>c - n_rows\<close>, \<^verbatim>\<open>LUp\<close> to \<open>c - n_rows + 1\<close>, \<^verbatim>\<open>Down\<close> to
  \<open>c - 1\<close>, \<^verbatim>\<open>Up\<close> to \<open>c + 1\<close>, \<^verbatim>\<open>RDown\<close> to \<open>c + n_rows - 1\<close>, \<^verbatim>\<open>REq\<close> to \<open>c + n_rows\<close> and
  \<^verbatim>\<open>RUp\<close> to \<open>c + n_rows + 1\<close>.
\<close>

definition directions :: "int \<Rightarrow> (int \<times> int) list" where
  "directions n_rows =
     [(LDown, - n_rows - 1), (LEq, - n_rows), (LUp, - n_rows + 1), (Down, - 1), (Up, 1),
      (RDown, n_rows - 1), (REq, n_rows), (RUp, n_rows + 1)]"

text \<open>The exit relation: \<open>(c, c')\<close> when an exit bit of cell \<open>c\<close> leads to cell \<open>c'\<close>.\<close>

definition exit_edges :: "int \<Rightarrow> node list \<Rightarrow> (int \<times> int) set" where
  "exit_edges n_rows ns =
     {(c, c + d) | c b d. in_range ns c \<and> (b, d) \<in> set (directions n_rows) \<and>
                          exits (ns ! nat c) AND b \<noteq> 0}"

text \<open>The exit bits that are set, cell by cell.\<close>

definition exit_bits :: "node list \<Rightarrow> (int \<times> nat) set" where
  "exit_bits ns = {(c, k). in_range ns c \<and> bit (exits (ns ! nat c)) k}"

text \<open>
  An undirected graph, given by a symmetric relation, has no cycle when every edge is a
  bridge: without the edge, its two ends are not connected.
\<close>

definition acyclic_graph :: "(int \<times> int) set \<Rightarrow> bool" where
  "acyclic_graph E \<longleftrightarrow> (\<forall>(a, b) \<in> E. (a, b) \<notin> (E - {(a, b), (b, a)})\<^sup>*)"

text \<open>The edges of the graph, without direction.\<close>

definition undirected :: "(int \<times> int) set \<Rightarrow> int set set" where
  "undirected E = (\<lambda>(a, b). {a, b}) ` E"

subsection \<open>Representatives\<close>

text \<open>\<open>reps cs c r\<close>: link-following from cell \<open>c\<close> ends at the root \<open>r\<close>.\<close>

definition reps :: "int list \<Rightarrow> int \<Rightarrow> int \<Rightarrow> bool" where
  "reps cs c r \<longleftrightarrow> (\<exists>ps. chain cs c ps r)"

text \<open>Two cells are in one component when they have the same root.\<close>

definition joined :: "int list \<Rightarrow> int \<Rightarrow> int \<Rightarrow> bool" where
  "joined cs x y \<longleftrightarrow> (\<exists>r. reps cs x r \<and> reps cs y r)"

lemma reps_unique: "reps cs c r \<Longrightarrow> reps cs c r' \<Longrightarrow> r' = r"
  unfolding reps_def using chain_unique by blast

lemma reps_root: "reps cs c r \<Longrightarrow> r \<in> roots cs"
  unfolding reps_def roots_def using chain_root_neg by blast

lemma reps_in_range: "reps cs c r \<Longrightarrow> in_range cs c"
  unfolding reps_def using chain_in_range by blast

lemma reps_self: "r \<in> roots cs \<Longrightarrow> reps cs r r"
  unfolding reps_def roots_def using chain_root by blast

lemma reps_link: "in_range cs c \<Longrightarrow> 0 \<le> cs ! nat c \<Longrightarrow> reps cs (cs ! nat c) r \<Longrightarrow> reps cs c r"
  unfolding reps_def using chain_link by blast

lemma reps_induct [consumes 1, case_names root link]:
  assumes "reps cs c r"
    and "\<And>c. c \<in> roots cs \<Longrightarrow> P c c"
    and "\<And>c r. in_range cs c \<Longrightarrow> 0 \<le> cs ! nat c \<Longrightarrow> reps cs (cs ! nat c) r \<Longrightarrow>
            P (cs ! nat c) r \<Longrightarrow> P c r"
  shows "P c r"
proof -
  from assms(1) obtain ps where ch: "chain cs c ps r" by (auto simp: reps_def)
  have "chain cs0 c ps r \<Longrightarrow> cs0 = cs \<Longrightarrow> P c r" for cs0
  proof (induction rule: chain.induct)
    case (chain_root cells x)
    then show ?case using assms(2) [of x] by (simp add: roots_def)
  next
    case (chain_link cells x ps r)
    then have "reps cs (cs ! nat x) r" by (auto simp: reps_def)
    with chain_link show ?case using assms(3) [of x r] by simp
  qed
  from this [OF ch] show ?thesis by simp
qed

lemma uf_forest_reps: "uf_forest cs \<Longrightarrow> in_range cs c \<Longrightarrow> \<exists>r. reps cs c r"
  unfolding uf_forest_def reps_def by blast

lemma finite_roots: "finite (roots cs)"
proof -
  have "roots cs \<subseteq> {0 ..< int (length cs)}"
    by (auto simp: roots_def in_range_def)
  then show ?thesis by (rule finite_subset) simp
qed

text \<open>\<^verbatim>\<open>base\<close> changes links, but no root and no component.\<close>

lemma base_reps:
  assumes "uf_forest cs" and "in_range cs x"
  shows "\<exists>r cs'. base cs x = Some (Inr (r, cs')) \<and> reps cs x r \<and> length cs' = length cs \<and>
           uf_forest cs' \<and> roots cs' = roots cs \<and> (\<forall>c r'. reps cs' c r' \<longleftrightarrow> reps cs c r')"
proof -
  from assms obtain ps r where ch: "chain cs x ps r" by (auto simp: uf_forest_def)
  from base_chain [OF ch] obtain cs'
    where run: "base cs x = Some (Inr (r, cs'))" and len: "length cs' = length cs"
      and hit: "\<forall>c \<in> set ps. cs' ! nat c = r"
      and miss: "\<forall>i. 0 \<le> i \<and> i \<notin> set ps \<longrightarrow> cs' ! nat i = cs ! nat i" by blast
  have rng: "in_range cs' c = in_range cs c" for c by (simp add: in_range_def len)
  from chain_root_neg [OF ch] have r: "in_range cs r" "cs ! nat r < 0" by simp_all
  have rps: "r \<notin> set ps" by (rule chain_root_notin [OF ch])
  have r0: "0 \<le> r" using r(1) by (simp add: in_range_def)
  have rr': "reps cs' r r"
    using r rps r0 miss rng by (intro reps_self) (simp add: roots_def)
  have same: "cs' ! nat c = cs ! nat c" if "in_range cs c" "c \<notin> set ps" for c
    using miss that by (simp add: in_range_def)
  have on: "in_range cs c \<and> 0 \<le> cs ! nat c" if "c \<in> set ps" for c
    using chain_path_nonneg [OF ch that] by simp
  have rts: "roots cs' = roots cs"
  proof (intro set_eqI iffI)
    fix c assume "c \<in> roots cs'"
    then have c: "in_range cs c" "cs' ! nat c < 0" by (simp_all add: roots_def rng)
    with hit r0 have "c \<notin> set ps" by auto
    with c same show "c \<in> roots cs" by (simp add: roots_def)
  next
    fix c assume "c \<in> roots cs"
    then have c: "in_range cs c" "cs ! nat c < 0" by (simp_all add: roots_def)
    with on [of c] have "c \<notin> set ps" by auto
    with c same show "c \<in> roots cs'" by (simp add: roots_def rng)
  qed
  have fwd: "reps cs' c rc" if "reps cs c rc" for c rc
    using that
  proof (induction rule: reps_induct)
    case (root c)
    then show ?case using rts by (intro reps_self) simp
  next
    case (link c rc)
    show ?case
    proof (cases "c \<in> set ps")
      case True
      from chain_suffix [OF ch True] have "reps cs c r" by (auto simp: reps_def)
      moreover have "reps cs c rc" using link(1,2,3) by (rule reps_link)
      ultimately have "rc = r" by (rule reps_unique)
      moreover have "reps cs' c r"
        using link(1) hit True r0 rr' by - (rule reps_link, simp_all add: rng)
      ultimately show ?thesis by simp
    next
      case False
      with link same [of c] show ?thesis by - (rule reps_link, simp_all add: rng)
    qed
  qed
  have bwd: "reps cs c rc" if "reps cs' c rc" for c rc
  proof -
    from that have "in_range cs c" using reps_in_range rng by blast
    with assms(1) obtain r0 where r0: "reps cs c r0" using uf_forest_reps by blast
    from fwd [OF this] that have "rc = r0" using reps_unique by blast
    with r0 show ?thesis by simp
  qed
  have "uf_forest cs'"
    unfolding uf_forest_def
  proof (intro allI impI)
    fix c assume "in_range cs' c"
    then obtain rc where "reps cs c rc" using uf_forest_reps [OF assms(1)] rng by blast
    from fwd [OF this] show "\<exists>ps r. chain cs' c ps r" by (auto simp: reps_def)
  qed
  moreover have "reps cs x r" using ch by (auto simp: reps_def)
  ultimately show ?thesis using run len rts fwd bwd by blast
qed

text \<open>\<^verbatim>\<open>unify\<close> on two distinct roots: the root \<open>l\<close> goes under the root \<open>s\<close>.\<close>

lemma unify_reps:
  assumes "uf_forest cs" and "x \<in> roots cs" and "y \<in> roots cs" and "x \<noteq> y"
  shows "\<exists>cs' s l. unify cs x y = Inr cs' \<and> length cs' = length cs \<and> uf_forest cs' \<and>
           (s = x \<and> l = y \<or> s = y \<and> l = x) \<and> roots cs' = roots cs - {l} \<and>
           (\<forall>c r. reps cs c r \<longrightarrow> reps cs' c (if r = l then s else r))"
proof -
  from assms(2,3) have rx: "in_range cs x" "cs ! nat x < 0" and ry: "in_range cs y" "cs ! nat y < 0"
    by (simp_all add: roots_def)
  define s where "s = (if cs ! nat x < cs ! nat y then x else y)"
  define l where "l = (if cs ! nat x < cs ! nat y then y else x)"
  define cs' where "cs' = cs[nat l := s, nat s := cs ! nat x + cs ! nat y]"
  have sl: "s = x \<and> l = y \<or> s = y \<and> l = x" by (simp add: s_def l_def)
  then have rs: "in_range cs s" "in_range cs l" "s \<noteq> l" "0 \<le> s" "0 \<le> l"
    using rx ry assms(4) by (auto simp: in_range_def)
  then have nsl: "nat s \<noteq> nat l" by auto
  have run: "unify cs x y = Inr cs'"
    using rx ry by (simp add: unify_def cs'_def s_def l_def)
  have len: "length cs' = length cs" by (simp add: cs'_def)
  have rng: "in_range cs' c = in_range cs c" for c by (simp add: in_range_def len)
  have ns: "nat s < length cs" "nat l < length cs"
    using rs by (auto simp: in_range_def)
  have vs: "cs' ! nat s < 0" using ns rx ry by (simp add: cs'_def)
  have vl: "cs' ! nat l = s" using ns nsl by (simp add: cs'_def)
  have oth: "cs' ! nat c = cs ! nat c" if "in_range cs c" "c \<noteq> s" "c \<noteq> l" for c
  proof -
    from that rs have "nat c \<noteq> nat s" "nat c \<noteq> nat l" by (auto simp: in_range_def)
    then show ?thesis by (simp add: cs'_def)
  qed
  have rts: "roots cs' = roots cs - {l}"
  proof (intro set_eqI iffI)
    fix c assume c: "c \<in> roots cs'"
    then have cr: "in_range cs c" "cs' ! nat c < 0" by (simp_all add: roots_def rng)
    with vl rs have "c \<noteq> l" by auto
    moreover have "c \<in> roots cs"
    proof (cases "c = s")
      case True
      with sl assms(2,3) show ?thesis by auto
    next
      case False
      with cr \<open>c \<noteq> l\<close> oth show ?thesis by (simp add: roots_def)
    qed
    ultimately show "c \<in> roots cs - {l}" by simp
  next
    fix c assume "c \<in> roots cs - {l}"
    then have c: "in_range cs c" "cs ! nat c < 0" "c \<noteq> l" by (simp_all add: roots_def)
    show "c \<in> roots cs'"
    proof (cases "c = s")
      case True
      with vs c show ?thesis by (simp add: roots_def rng)
    next
      case False
      with c oth show ?thesis by (simp add: roots_def rng)
    qed
  qed
  have ss: "reps cs' s s"
    using rs(1) vs by (intro reps_self) (simp add: roots_def rng)
  have "reps cs' (cs' ! nat l) s" using ss by (simp only: vl)
  moreover have "in_range cs' l" using rs(2) by (simp only: rng)
  moreover have "0 \<le> cs' ! nat l" using rs(4) by (simp only: vl)
  ultimately have ls: "reps cs' l s" by (rule reps_link [rotated 2])
  have fwd: "reps cs' c (if r = l then s else r)" if "reps cs c r" for c r
    using that
  proof (induction rule: reps_induct)
    case (root c)
    show ?case
    proof (cases "c = l")
      case True
      with ls show ?thesis by simp
    next
      case False
      with root rts show ?thesis by (auto intro: reps_self)
    qed
  next
    case (link c r)
    have "c \<noteq> s" "c \<noteq> l"
      using link(2) sl rx ry by auto
    with link oth [of c] show ?case by - (rule reps_link, simp_all add: rng)
  qed
  have "uf_forest cs'"
    unfolding uf_forest_def
  proof (intro allI impI)
    fix c assume "in_range cs' c"
    then obtain rc where "reps cs c rc" using uf_forest_reps [OF assms(1)] rng by blast
    from fwd [OF this] show "\<exists>ps r. chain cs' c ps r" by (auto simp: reps_def)
  qed
  with run len sl rts fwd show ?thesis by blast
qed
subsection \<open>Adding an edge to a graph\<close>

lemma rtrancl_insert_both:
  "(insert (a, b) (insert (b, a) E))\<^sup>* =
     E\<^sup>* \<union> {(x, y). (x, a) \<in> E\<^sup>* \<and> (b, y) \<in> E\<^sup>*} \<union> {(x, y). (x, b) \<in> E\<^sup>* \<and> (a, y) \<in> E\<^sup>*}"
proof -
  have tr: "(x, y) \<in> E\<^sup>* \<Longrightarrow> (y, z) \<in> E\<^sup>* \<Longrightarrow> (x, z) \<in> E\<^sup>*" for x y z
    by (rule rtrancl_trans)
  show ?thesis
    unfolding rtrancl_insert [of a b "insert (b, a) E"] rtrancl_insert [of b a E]
    using tr by blast
qed

lemma sym_insert_both: "sym E \<Longrightarrow> sym (insert (a, b) (insert (b, a) E))"
  by (auto simp: sym_def)

lemma acyclic_graph_insert:
  assumes ac: "acyclic_graph E" and sy: "sym E" and nc: "(a, b) \<notin> E\<^sup>*"
  shows "acyclic_graph (insert (a, b) (insert (b, a) E))"
proof -
  let ?E = "insert (a, b) (insert (b, a) E)"
  have syc: "sym (E\<^sup>*)" by (rule sym_rtrancl [OF sy])
  from nc syc have nc': "(b, a) \<notin> E\<^sup>*" by (auto dest: symD)
  from nc nc' have notin: "(a, b) \<notin> E" "(b, a) \<notin> E" by auto
  have "(c, d) \<notin> (?E - {(c, d), (d, c)})\<^sup>*" if cd: "(c, d) \<in> ?E" for c d
  proof (cases "(c, d) = (a, b) \<or> (c, d) = (b, a)")
    case True
    then have "?E - {(c, d), (d, c)} = E" using notin by auto
    with True nc nc' show ?thesis by auto
  next
    case False
    with cd have in_E: "(c, d) \<in> E" by auto
    with sy have in_E': "(d, c) \<in> E" by (auto dest: symD)
    let ?F = "E - {(c, d), (d, c)}"
    have syF: "sym ?F" using sy by (auto simp: sym_def)
    have sycF: "sym (?F\<^sup>*)" by (rule sym_rtrancl [OF syF])
    have sub: "?F\<^sup>* \<subseteq> E\<^sup>*" by (rule rtrancl_mono) auto
    have eq: "?E - {(c, d), (d, c)} = insert (a, b) (insert (b, a) ?F)"
      using False notin in_E in_E' by auto
    have old: "(c, d) \<notin> ?F\<^sup>*" using ac in_E by (auto simp: acyclic_graph_def)
    show ?thesis
    proof
      assume "(c, d) \<in> (?E - {(c, d), (d, c)})\<^sup>*"
      then have "(c, d) \<in> ?F\<^sup>* \<or> ((c, a) \<in> ?F\<^sup>* \<and> (b, d) \<in> ?F\<^sup>*) \<or>
                 ((c, b) \<in> ?F\<^sup>* \<and> (a, d) \<in> ?F\<^sup>*)"
        unfolding eq rtrancl_insert_both by blast
      then show False
      proof (elim disjE conjE)
        assume "(c, d) \<in> ?F\<^sup>*"
        with old show False by simp
      next
        assume "(c, a) \<in> ?F\<^sup>*" "(b, d) \<in> ?F\<^sup>*"
        with sycF have "(a, c) \<in> ?F\<^sup>*" "(d, b) \<in> ?F\<^sup>*" by (auto dest: symD)
        with sub have "(a, c) \<in> E\<^sup>*" "(d, b) \<in> E\<^sup>*" by auto
        with in_E have "(a, b) \<in> E\<^sup>*"
          by (meson rtrancl.rtrancl_into_rtrancl rtrancl_trans)
        with nc show False by simp
      next
        assume "(c, b) \<in> ?F\<^sup>*" "(a, d) \<in> ?F\<^sup>*"
        with sycF have "(b, c) \<in> ?F\<^sup>*" "(d, a) \<in> ?F\<^sup>*" by (auto dest: symD)
        with sub have "(b, c) \<in> E\<^sup>*" "(d, a) \<in> E\<^sup>*" by auto
        with in_E have "(b, a) \<in> E\<^sup>*"
          by (meson rtrancl.rtrancl_into_rtrancl rtrancl_trans)
        with nc' show False by simp
      qed
    qed
  qed
  then show ?thesis unfolding acyclic_graph_def by blast
qed

lemma undirected_insert_both:
  "undirected (insert (a, b) (insert (b, a) E)) = insert {a, b} (undirected E)"
  by (auto simp: undirected_def)

lemma undirected_fresh:
  assumes "(a, b) \<notin> E" and "(b, a) \<notin> E"
  shows "{a, b} \<notin> undirected E"
proof
  assume "{a, b} \<in> undirected E"
  then obtain c d where cd: "(c, d) \<in> E" "{a, b} = {c, d}" by (auto simp: undirected_def)
  then have "(c, d) = (a, b) \<or> (c, d) = (b, a)" by (auto simp: doubleton_eq_iff)
  with cd(1) assms show False by auto
qed
subsection \<open>Exit bits and the edges they stand for\<close>

text \<open>
  The walls that \<^verbatim>\<open>init_walls\<close> writes: both cells exist, and \<^verbatim>\<open>higher - lower\<close> is \<open>1\<close>
  (north), \<open>n\<close> or \<open>n + 1\<close> (north-east), \<open>- n\<close> or \<open>1 - n\<close> (north-west).
\<close>

definition wall_ok :: "int \<Rightarrow> nat \<Rightarrow> int \<Rightarrow> int \<Rightarrow> bool" where
  "wall_ok n N lo hi \<longleftrightarrow>
     0 \<le> lo \<and> lo < int N \<and> 0 \<le> hi \<and> hi < int N \<and>
     (hi - lo = 1 \<or> hi - lo = n \<or> hi - lo = n + 1 \<or> hi - lo = - n \<or> hi - lo = 1 - n)"

lemma dir_nonzero: "(b, d) \<in> set (directions n) \<Longrightarrow> b \<noteq> 0"
  by (auto simp: directions_def Up_def Down_def LDown_def RDown_def LEq_def REq_def LUp_def RUp_def)

lemma dir_disjoint:
  "(b, d) \<in> set (directions n) \<Longrightarrow> (b', d') \<in> set (directions n) \<Longrightarrow> b' AND b \<noteq> 0 \<Longrightarrow>
     b' = b \<and> d' = d"
  by (auto simp: directions_def Up_def Down_def LDown_def RDown_def LEq_def REq_def LUp_def RUp_def)

lemma or_and_nonzero: "(x OR z) AND b \<noteq> 0 \<longleftrightarrow> x AND b \<noteq> 0 \<or> z AND b \<noteq> 0" for x z b :: int
  by (auto simp: bit.conj_disj_distrib2 or_eq_0_iff)

lemma add_exits_ok:
  assumes "in_range ns lo" and "in_range ns hi" and "lo \<noteq> hi"
  shows "\<exists>ns'. add_exits ns hi lo dh dl = Inr ns' \<and> length ns' = length ns \<and>
           (\<forall>c. in_range ns c \<longrightarrow>
              exits (ns' ! nat c) =
                exits (ns ! nat c) OR (if c = lo then dl else if c = hi then dh else 0))"
proof -
  let ?n1 = "ns[nat hi := (ns ! nat hi)\<lparr>exits := exits (ns ! nat hi) OR dh\<rparr>]"
  let ?n2 = "?n1[nat lo := (?n1 ! nat lo)\<lparr>exits := exits (?n1 ! nat lo) OR dl\<rparr>]"
  from assms have b: "nat lo < length ns" "nat hi < length ns" "nat lo \<noteq> nat hi"
    by (auto simp: in_range_def)
  have run: "add_exits ns hi lo dh dl = Inr ?n2"
    using assms by (simp add: add_exits_def Let_def in_range_def)
  have "exits (?n2 ! nat c) =
          exits (ns ! nat c) OR (if c = lo then dl else if c = hi then dh else 0)"
    if "in_range ns c" for c
  proof -
    from that assms have eqs: "nat c = nat lo \<longleftrightarrow> c = lo" "nat c = nat hi \<longleftrightarrow> c = hi"
      by (auto simp: in_range_def)
    from that have "nat c < length ns" by (auto simp: in_range_def)
    then show ?thesis
      using b eqs by (auto simp: nth_list_update)
  qed
  with run show ?thesis by (intro exI [of _ ?n2]) simp
qed

lemma open_exits_add:
  assumes "2 \<le> n"
    and "hi - lo = 1 \<or> hi - lo = n \<or> hi - lo = n + 1 \<or> hi - lo = - n \<or> hi - lo = 1 - n"
  shows "\<exists>dl dh kl kh. open_exits n ns lo hi = add_exits ns hi lo dh dl \<and>
           (dl, hi - lo) \<in> set (directions n) \<and> (dh, lo - hi) \<in> set (directions n) \<and>
           dl = 2 ^ kl \<and> dh = 2 ^ kh"
proof -
  have neg: "lo - hi = - (hi - lo)" by simp
  from assms(2) consider "hi - lo = 1" | "hi - lo = n" | "hi - lo = n + 1"
    | "hi - lo = - n" | "hi - lo = 1 - n" by blast
  then show ?thesis
  proof cases
    case 1
    then show ?thesis
      unfolding neg
      by (rule_tac x = Up in exI, rule_tac x = Down in exI, rule_tac x = 0 in exI,
          rule_tac x = 1 in exI) (simp add: open_exits_def directions_def Up_def Down_def)
  next
    case 2
    with assms(1) show ?thesis
      unfolding neg
      by (rule_tac x = REq in exI, rule_tac x = LEq in exI, rule_tac x = 5 in exI,
          rule_tac x = 4 in exI) (simp add: open_exits_def directions_def REq_def LEq_def)
  next
    case 3
    with assms(1) show ?thesis
      unfolding neg
      by (rule_tac x = RUp in exI, rule_tac x = LDown in exI, rule_tac x = 7 in exI,
          rule_tac x = 2 in exI) (simp add: open_exits_def directions_def RUp_def LDown_def)
  next
    case 4
    with assms(1) show ?thesis
      unfolding neg
      by (rule_tac x = LEq in exI, rule_tac x = REq in exI, rule_tac x = 4 in exI,
          rule_tac x = 5 in exI) (simp add: open_exits_def directions_def REq_def LEq_def)
  next
    case 5
    with assms(1) show ?thesis
      unfolding neg
      by (rule_tac x = LUp in exI, rule_tac x = RDown in exI, rule_tac x = 6 in exI,
          rule_tac x = 3 in exI) (simp add: open_exits_def directions_def LUp_def RDown_def)
  qed
qed

lemma exit_edges_update:
  assumes len: "length ns' = length ns"
    and upd: "\<forall>c. in_range ns c \<longrightarrow>
              exits (ns' ! nat c) =
                exits (ns ! nat c) OR (if c = lo then dl else if c = hi then dh else 0)"
    and lo: "in_range ns lo" and hi: "in_range ns hi"
    and dl: "(dl, hi - lo) \<in> set (directions n)" and dh: "(dh, lo - hi) \<in> set (directions n)"
  shows "exit_edges n ns' = insert (lo, hi) (insert (hi, lo) (exit_edges n ns))"
proof (intro set_eqI iffI)
  fix e assume "e \<in> exit_edges n ns'"
  then obtain c b d where e: "e = (c, c + d)" and c: "in_range ns c"
    and bd: "(b, d) \<in> set (directions n)" and nz: "exits (ns' ! nat c) AND b \<noteq> 0"
    by (auto simp: exit_edges_def in_range_def len)
  let ?z = "if c = lo then dl else if c = hi then dh else 0"
  from nz upd c have "exits (ns ! nat c) AND b \<noteq> 0 \<or> ?z AND b \<noteq> 0"
    by (simp add: or_and_nonzero)
  then show "e \<in> insert (lo, hi) (insert (hi, lo) (exit_edges n ns))"
  proof
    assume "exits (ns ! nat c) AND b \<noteq> 0"
    with c bd e have "e \<in> exit_edges n ns" by (auto simp: exit_edges_def)
    then show ?thesis by simp
  next
    assume z: "?z AND b \<noteq> 0"
    then have "c = lo \<or> c = hi" by (auto split: if_splits)
    then show ?thesis
    proof
      assume cl: "c = lo"
      with z have "dl AND b \<noteq> 0" by simp
      from dir_disjoint [OF bd dl this] have "d = hi - lo" by simp
      with e cl show ?thesis by simp
    next
      assume ch: "c = hi"
      show ?thesis
      proof (cases "hi = lo")
        case True
        with z ch have "dl AND b \<noteq> 0" by simp
        from dir_disjoint [OF bd dl this] have "d = hi - lo" by simp
        with e ch True show ?thesis by simp
      next
        case False
        with z ch have "dh AND b \<noteq> 0" by simp
        from dir_disjoint [OF bd dh this] have "d = lo - hi" by simp
        with e ch show ?thesis by simp
      qed
    qed
  qed
next
  fix e assume e: "e \<in> insert (lo, hi) (insert (hi, lo) (exit_edges n ns))"
  have rng: "in_range ns' c = in_range ns c" for c by (simp add: in_range_def len)
  have new: "(c, c + d) \<in> exit_edges n ns'"
    if "in_range ns c" "(b, d) \<in> set (directions n)"
      "exits (ns ! nat c) AND b \<noteq> 0 \<or> (if c = lo then dl else if c = hi then dh else 0) AND b \<noteq> 0"
    for c b d
  proof -
    from that(1,3) upd have "exits (ns' ! nat c) AND b \<noteq> 0"
      by (simp add: or_and_nonzero)
    with that(1,2) show ?thesis unfolding exit_edges_def rng [symmetric] by blast
  qed
  from e consider "e = (lo, hi)" | "e = (hi, lo)" | "e \<in> exit_edges n ns" by blast
  then show "e \<in> exit_edges n ns'"
  proof cases
    case 1
    have "(lo, lo + (hi - lo)) \<in> exit_edges n ns'"
      using dir_nonzero [OF dl] by (intro new [OF lo dl]) simp
    with 1 show ?thesis by simp
  next
    case 2
    show ?thesis
    proof (cases "hi = lo")
      case True
      have "(lo, lo + (hi - lo)) \<in> exit_edges n ns'"
        using dir_nonzero [OF dl] by (intro new [OF lo dl]) simp
      with 2 True show ?thesis by simp
    next
      case False
      have "(hi, hi + (lo - hi)) \<in> exit_edges n ns'"
        using dir_nonzero [OF dh] False by (intro new [OF hi dh]) simp
      with 2 show ?thesis by simp
    qed
  next
    case 3
    then obtain c b d where "e = (c, c + d)" "in_range ns c" "(b, d) \<in> set (directions n)"
      "exits (ns ! nat c) AND b \<noteq> 0" by (auto simp: exit_edges_def)
    with new [of c b d] show ?thesis by simp
  qed
qed

lemma exit_bits_update:
  assumes len: "length ns' = length ns"
    and upd: "\<forall>c. in_range ns c \<longrightarrow>
              exits (ns' ! nat c) =
                exits (ns ! nat c) OR (if c = lo then 2 ^ kl else if c = hi then 2 ^ kh else 0)"
    and lo: "in_range ns lo" and hi: "in_range ns hi" and ne: "lo \<noteq> hi"
  shows "exit_bits ns' = insert (lo, kl) (insert (hi, kh) (exit_bits ns))"
proof -
  have rng: "in_range ns' c = in_range ns c" for c by (simp add: in_range_def len)
  have b2: "bit ((2 :: int) ^ k) j \<longleftrightarrow> j = k" for k j
    by (auto simp: bit_exp_iff)
  show ?thesis
  proof (intro set_eqI)
    fix p :: "int \<times> nat"
    obtain c k where p: "p = (c, k)" by (cases p)
    show "p \<in> exit_bits ns' \<longleftrightarrow> p \<in> insert (lo, kl) (insert (hi, kh) (exit_bits ns))"
    proof (cases "in_range ns c")
      case False
      with lo hi have "c \<noteq> lo" "c \<noteq> hi" by auto
      with False show ?thesis by (simp add: p exit_bits_def rng)
    next
      case True
      with upd have E: "exits (ns' ! nat c) =
          exits (ns ! nat c) OR (if c = lo then 2 ^ kl else if c = hi then 2 ^ kh else 0)"
        by simp
      have B: "bit (exits (ns' ! nat c)) k \<longleftrightarrow>
                 bit (exits (ns ! nat c)) k \<or> (c = lo \<and> k = kl) \<or> (c = hi \<and> k = kh)"
        unfolding E using ne by (auto simp: bit_or_iff b2)
      show ?thesis
        unfolding p exit_bits_def rng using True B by auto
    qed
  qed
qed

lemma exit_bit_edge:
  assumes "(lo, kl) \<in> exit_bits ns" and "(2 ^ kl, d) \<in> set (directions n)"
  shows "(lo, lo + d) \<in> exit_edges n ns"
proof -
  from assms(1) have "in_range ns lo" "bit (exits (ns ! nat lo)) kl"
    by (simp_all add: exit_bits_def)
  then have "exits (ns ! nat lo) AND 2 ^ kl \<noteq> 0"
    by (simp add: and_exp_eq_0_iff_not_bit)
  with \<open>in_range ns lo\<close> assms(2) show ?thesis
    unfolding exit_edges_def by blast
qed
subsection \<open>The invariant of the carving loop\<close>

text \<open>
  Between two iterations of the loop of \<^verbatim>\<open>create_maze\<close>: the forest is well-formed; the
  exit relation is symmetric; two cells are in one component exactly when the exits
  connect them; the graph of the exits has no cycle; the number of exit bits set is twice
  the number of walls removed so far, which is the number of cells minus the number of
  components, and also the number of edges of the graph.
\<close>

definition maze_inv :: "int \<Rightarrow> int list \<Rightarrow> node list \<Rightarrow> bool" where
  "maze_inv n cs ns \<longleftrightarrow>
     length ns = length cs \<and> uf_forest cs \<and> sym (exit_edges n ns) \<and>
     (\<forall>x y. in_range cs x \<and> in_range cs y \<longrightarrow>
        (joined cs x y \<longleftrightarrow> (x, y) \<in> (exit_edges n ns)\<^sup>*)) \<and>
     acyclic_graph (exit_edges n ns) \<and>
     finite (exit_bits ns) \<and> card (exit_bits ns) + 2 * card (roots cs) = 2 * length cs \<and>
     finite (undirected (exit_edges n ns)) \<and>
     card (undirected (exit_edges n ns)) + card (roots cs) = length cs"

lemma joined_iff: "reps cs u ru \<Longrightarrow> reps cs v rv \<Longrightarrow> joined cs u v \<longleftrightarrow> ru = rv"
  unfolding joined_def using reps_unique by blast

lemma maze_inv_base:
  assumes "maze_inv n cs ns" and "uf_forest cs'" and "length cs' = length cs"
    and "roots cs' = roots cs" and "\<forall>c r. reps cs' c r \<longleftrightarrow> reps cs c r"
  shows "maze_inv n cs' ns"
proof -
  have "joined cs' x y = joined cs x y" for x y
    using assms(5) by (simp add: joined_def)
  moreover have "in_range cs' x = in_range cs x" for x
    using assms(3) by (simp add: in_range_def)
  ultimately show ?thesis
    using assms(1,2,3,4) by (simp add: maze_inv_def)
qed

lemma roots_nonempty:
  assumes "uf_forest cs" and "cs \<noteq> []"
  shows "1 \<le> card (roots cs)"
proof -
  from assms(2) have "in_range cs 0" by (simp add: in_range_def)
  with assms(1) obtain r where "reps cs 0 r" using uf_forest_reps by blast
  then have "r \<in> roots cs" by (rule reps_root)
  with finite_roots [of cs] show ?thesis
    by (metis One_nat_def Suc_leI card_gt_0_iff empty_iff)
qed

lemma maze_inv_remove:
  assumes inv: "maze_inv n cs ns" and n2: "2 \<le> n"
    and ok: "wall_ok n (length cs) lo hi"
    and rx: "reps cs lo x" and ry: "reps cs hi y" and ne: "x \<noteq> y"
  shows "\<exists>cs' ns'. unify cs x y = Inr cs' \<and> open_exits n ns lo hi = Inr ns' \<and>
           maze_inv n cs' ns' \<and> length cs' = length cs \<and>
           card (roots cs') + 1 = card (roots cs) \<and>
           exit_edges n ns' = insert (lo, hi) (insert (hi, lo) (exit_edges n ns))"
proof -
  let ?E = "exit_edges n ns"
  from inv have len: "length ns = length cs" and uf: "uf_forest cs" and sy: "sym ?E"
    and conn: "\<And>u v. in_range cs u \<Longrightarrow> in_range cs v \<Longrightarrow> joined cs u v \<longleftrightarrow> (u, v) \<in> ?E\<^sup>*"
    and ac: "acyclic_graph ?E"
    and fb: "finite (exit_bits ns)" and cb: "card (exit_bits ns) + 2 * card (roots cs) = 2 * length cs"
    and fu: "finite (undirected ?E)"
    and cu: "card (undirected ?E) + card (roots cs) = length cs"
    by (simp_all add: maze_inv_def)
  from ok have rl: "in_range cs lo" and rh: "in_range cs hi"
    and delta: "hi - lo = 1 \<or> hi - lo = n \<or> hi - lo = n + 1 \<or> hi - lo = - n \<or> hi - lo = 1 - n"
    by (simp_all add: wall_ok_def in_range_def)
  from rl rh len have nl: "in_range ns lo" and nh: "in_range ns hi" by (simp_all add: in_range_def)
  from joined_iff [OF rx ry] ne have nj: "\<not> joined cs lo hi" by simp
  with conn [OF rl rh] have nc: "(lo, hi) \<notin> ?E\<^sup>*" by simp
  then have lh: "lo \<noteq> hi" by auto
  have syc: "sym (?E\<^sup>*)" by (rule sym_rtrancl [OF sy])
  from nc syc have nc': "(hi, lo) \<notin> ?E\<^sup>*" by (auto dest: symD)
  from nc nc' have notin: "(lo, hi) \<notin> ?E" "(hi, lo) \<notin> ?E" by auto
  \<comment> \<open>the forest\<close>
  from unify_reps [OF uf reps_root [OF rx] reps_root [OF ry] ne] obtain cs' s l
    where un: "unify cs x y = Inr cs'" and len': "length cs' = length cs"
      and uf': "uf_forest cs'" and sl: "s = x \<and> l = y \<or> s = y \<and> l = x"
      and rts: "roots cs' = roots cs - {l}"
      and mv: "\<And>c r. reps cs c r \<Longrightarrow> reps cs' c (if r = l then s else r)" by blast
  have "l \<in> roots cs" using sl reps_root [OF rx] reps_root [OF ry] by auto
  from card_Suc_Diff1 [OF finite_roots this]
  have cr: "card (roots cs') + 1 = card (roots cs)"
    by (simp add: rts)
  \<comment> \<open>the exits\<close>
  from open_exits_add [OF n2 delta, of ns] obtain dl dh kl kh
    where oe: "open_exits n ns lo hi = add_exits ns hi lo dh dl"
      and dl: "(dl, hi - lo) \<in> set (directions n)" and dh: "(dh, lo - hi) \<in> set (directions n)"
      and pw: "dl = 2 ^ kl" "dh = 2 ^ kh" by blast
  from add_exits_ok [OF nl nh lh, of dh dl] obtain ns'
    where ae: "add_exits ns hi lo dh dl = Inr ns'" and lenn: "length ns' = length ns"
      and upd: "\<forall>c. in_range ns c \<longrightarrow>
              exits (ns' ! nat c) =
                exits (ns ! nat c) OR (if c = lo then dl else if c = hi then dh else 0)" by blast
  let ?E' = "exit_edges n ns'"
  have E': "?E' = insert (lo, hi) (insert (hi, lo) ?E)"
    by (rule exit_edges_update [OF lenn upd nl nh dl dh])
  have bits: "exit_bits ns' = insert (lo, kl) (insert (hi, kh) (exit_bits ns))"
    using exit_bits_update [OF lenn _ nl nh lh, of kl kh] upd pw by simp
  have "(lo, kl) \<notin> exit_bits ns"
  proof
    assume "(lo, kl) \<in> exit_bits ns"
    from exit_bit_edge [OF this, of "hi - lo" n] dl pw notin show False by simp
  qed
  moreover have "(hi, kh) \<notin> exit_bits ns"
  proof
    assume "(hi, kh) \<in> exit_bits ns"
    from exit_bit_edge [OF this, of "lo - hi" n] dh pw notin show False by simp
  qed
  ultimately have cb': "card (exit_bits ns') = card (exit_bits ns) + 2"
    using fb lh by (simp add: bits)
  have fb': "finite (exit_bits ns')" using fb by (simp add: bits)
  have und: "undirected ?E' = insert {lo, hi} (undirected ?E)"
    by (simp add: E' undirected_insert_both)
  have cu': "card (undirected ?E') = card (undirected ?E) + 1"
    using undirected_fresh [OF notin] fu by (simp add: und)
  have fu': "finite (undirected ?E')" using fu by (simp add: und)
  \<comment> \<open>components and connection\<close>
  have rng: "in_range cs' c = in_range cs c" for c by (simp add: in_range_def len')
  have conn': "joined cs' u v \<longleftrightarrow> (u, v) \<in> ?E'\<^sup>*" if u: "in_range cs u" and v: "in_range cs v" for u v
  proof -
    from uf u v obtain ru rv where ru: "reps cs u ru" and rv: "reps cs v rv"
      using uf_forest_reps by blast
    have j': "joined cs' u v \<longleftrightarrow> (if ru = l then s else ru) = (if rv = l then s else rv)"
      by (rule joined_iff [OF mv [OF ru] mv [OF rv]])
    have "(u, v) \<in> ?E'\<^sup>* \<longleftrightarrow>
            (u, v) \<in> ?E\<^sup>* \<or> ((u, lo) \<in> ?E\<^sup>* \<and> (hi, v) \<in> ?E\<^sup>*) \<or> ((u, hi) \<in> ?E\<^sup>* \<and> (lo, v) \<in> ?E\<^sup>*)"
      unfolding E' rtrancl_insert_both by blast
    also have "\<dots> \<longleftrightarrow> joined cs u v \<or> (joined cs u lo \<and> joined cs hi v) \<or>
                          (joined cs u hi \<and> joined cs lo v)"
      using conn u v rl rh by simp
    also have "\<dots> \<longleftrightarrow> ru = rv \<or> (ru = x \<and> y = rv) \<or> (ru = y \<and> x = rv)"
      using joined_iff [OF ru rv] joined_iff [OF ru rx] joined_iff [OF ry rv]
        joined_iff [OF ru ry] joined_iff [OF rx rv] by simp
    also have "\<dots> \<longleftrightarrow> (if ru = l then s else ru) = (if rv = l then s else rv)"
      using sl ne by auto
    finally show ?thesis using j' by simp
  qed
  have "maze_inv n cs' ns'"
    unfolding maze_inv_def
  proof (intro conjI allI impI)
    show "length ns' = length cs'" using lenn len len' by simp
    show "uf_forest cs'" by (rule uf')
    show "sym ?E'" unfolding E' by (rule sym_insert_both [OF sy])
    show "acyclic_graph ?E'" unfolding E' by (rule acyclic_graph_insert [OF ac sy nc])
    show "finite (exit_bits ns')" by (rule fb')
    show "finite (undirected ?E')" by (rule fu')
    show "card (exit_bits ns') + 2 * card (roots cs') = 2 * length cs'"
      using cb cb' cr len' by simp
    show "card (undirected ?E') + card (roots cs') = length cs'"
      using cu cu' cr len' by simp
    fix u v assume "in_range cs' u \<and> in_range cs' v"
    then show "joined cs' u v \<longleftrightarrow> (u, v) \<in> ?E'\<^sup>*"
      using conn' by (simp add: rng)
  qed
  with un oe ae len' cr E' show ?thesis by simp
qed

lemma maze_inv_keep:
  assumes inv: "maze_inv n cs ns" and ok: "wall_ok n (length cs) lo hi"
    and rx: "reps cs lo x" and ry: "reps cs hi x"
  shows "(lo, hi) \<in> (exit_edges n ns)\<^sup>*"
proof -
  from ok have "in_range cs lo" "in_range cs hi" by (simp_all add: wall_ok_def in_range_def)
  moreover have "joined cs lo hi" using rx ry by (auto simp: joined_def)
  ultimately show ?thesis using inv by (simp add: maze_inv_def)
qed
subsection \<open>The walls that are kept\<close>

text \<open>
  The kept walls \<open>ks\<close> are linked while the loop runs, except that the \<^verbatim>\<open>next\<close> field of the
  last of them, \<open>q\<close>, "is waiting to be filled in".
\<close>

fun seg :: "wall list \<Rightarrow> nat list \<Rightarrow> bool" where
  "seg ws [] \<longleftrightarrow> True"
| "seg ws [a] \<longleftrightarrow> a < length ws"
| "seg ws (a # b # r) \<longleftrightarrow> a < length ws \<and> nxt (ws ! a) = Some b \<and> seg ws (b # r)"

definition keep_inv :: "wall list \<Rightarrow> nat option \<Rightarrow> nat option \<Rightarrow> nat list \<Rightarrow> bool" where
  "keep_inv ws fw q ks \<longleftrightarrow>
     (if ks = [] then q = None else q = Some (last ks) \<and> fw = Some (hd ks) \<and> seg ws ks)"

lemma seg_bound: "seg ws ks \<Longrightarrow> k \<in> set ks \<Longrightarrow> k < length ws"
  by (induction ws ks rule: seg.induct) auto

lemma seg_snoc:
  "seg ws ks \<Longrightarrow> ks \<noteq> [] \<Longrightarrow> distinct (ks @ [a]) \<Longrightarrow> a < length ws \<Longrightarrow>
     seg (ws[last ks := (ws ! last ks)\<lparr>nxt := Some a\<rparr>]) (ks @ [a])"
proof (induction ws ks rule: seg.induct)
  case (1 ws)
  then show ?case by simp
next
  case (2 ws k)
  then show ?case by simp
next
  case (3 ws k b r)
  then have "k \<noteq> last (b # r)" by auto
  with 3 show ?case by simp
qed

lemma seg_close:
  "seg ws ks \<Longrightarrow> ks \<noteq> [] \<Longrightarrow> distinct ks \<Longrightarrow>
     llist (ws[last ks := (ws ! last ks)\<lparr>nxt := None\<rparr>]) (Some (hd ks)) ks"
proof (induction ws ks rule: seg.induct)
  case (1 ws)
  then show ?case by simp
next
  case (2 ws k)
  then show ?case by simp
next
  case (3 ws k b r)
  then have "k \<noteq> last (b # r)" by auto
  with 3 show ?case by simp
qed

lemma lower_upd_nxt [simp]: "lower (ws[b := (ws ! b)\<lparr>nxt := v\<rparr>] ! a) = lower (ws ! a)"
  by (cases "b < length ws"; cases "a = b") (simp_all add: list_update_beyond)

lemma higher_upd_nxt [simp]: "higher (ws[b := (ws ! b)\<lparr>nxt := v\<rparr>] ! a) = higher (ws ! a)"
  by (cases "b < length ws"; cases "a = b") (simp_all add: list_update_beyond)

text \<open>The pairs of cells that a set of walls lies between, in both directions.\<close>

definition wall_edges :: "wall list \<Rightarrow> nat set \<Rightarrow> (int \<times> int) set" where
  "wall_edges ws A =
     (\<Union>a \<in> A. {(lower (ws ! a), higher (ws ! a)), (higher (ws ! a), lower (ws ! a))})"

lemma wall_edges_upd_nxt [simp]:
  "wall_edges (ws[b := (ws ! b)\<lparr>nxt := v\<rparr>]) A = wall_edges ws A"
  by (simp add: wall_edges_def)

lemma wall_edges_insert:
  "wall_edges ws (insert a A) =
     insert (lower (ws ! a), higher (ws ! a))
       (insert (higher (ws ! a), lower (ws ! a)) (wall_edges ws A))"
  by (auto simp: wall_edges_def)

lemma wall_edges_same:
  "same_walls ws ws' \<Longrightarrow> \<forall>a \<in> A. a < length ws \<Longrightarrow> wall_edges ws' A = wall_edges ws A"
  by (simp add: wall_edges_def same_walls_def)

subsection \<open>The loop of \<^verbatim>\<open>create_maze\<close>\<close>

lemma carve_ok:
  assumes n2: "2 \<le> n"
  shows "llist ws p as \<Longrightarrow> maze_inv n cs ns \<Longrightarrow>
     \<forall>a \<in> set as. wall_ok n (length cs) (lower (ws ! a)) (higher (ws ! a)) \<Longrightarrow>
     keep_inv ws fw q ks \<Longrightarrow> distinct (ks @ as) \<Longrightarrow>
     \<exists>cs' ns' ws' fw' q' ks'.
        carve n cs ns ws fw q p = Some (Inr (cs', ns', ws', fw', q')) \<and>
        maze_inv n cs' ns' \<and> length cs' = length cs \<and> same_walls ws ws' \<and>
        keep_inv ws' fw' q' ks' \<and> distinct ks' \<and>
        length ks' + card (roots cs) = length ks + length as + card (roots cs') \<and>
        exit_edges n ns \<subseteq> exit_edges n ns' \<and>
        (\<forall>a \<in> set as. (lower (ws ! a), higher (ws ! a)) \<in> (exit_edges n ns')\<^sup>*) \<and>
        set ks \<subseteq> set ks' \<and> set ks' \<subseteq> set ks \<union> set as \<and>
        exit_edges n ns' = exit_edges n ns \<union> wall_edges ws (set as - set ks')"
proof (induction as arbitrary: cs ns ws fw q p ks)
  case Nil
  then have "carve n cs ns ws fw q p = Some (Inr (cs, ns, ws, fw, q))"
    by (subst carve.simps) simp
  with Nil show ?case
    by (rule_tac x = cs in exI, rule_tac x = ns in exI, rule_tac x = ws in exI,
        rule_tac x = fw in exI, rule_tac x = q in exI, rule_tac x = ks in exI)
      (simp add: same_walls_refl wall_edges_def)
next
  case (Cons a as)
  let ?lo = "lower (ws ! a)"
  let ?hi = "higher (ws ! a)"
  from Cons.prems(1) have p: "p = Some a" and a: "a < length ws"
    and tl: "llist ws (nxt (ws ! a)) as" by simp_all
  from Cons.prems(3) have ok: "wall_ok n (length cs) ?lo ?hi" by simp
  then have rl: "in_range cs ?lo" and rh: "in_range cs ?hi"
    by (simp_all add: wall_ok_def in_range_def)
  from Cons.prems(2) have uf: "uf_forest cs" by (simp add: maze_inv_def)
  \<comment> \<open>\<^verbatim>\<open>x=base(p->lower)\<close>\<close>
  from base_reps [OF uf rl] obtain x cs1
    where b1: "base cs ?lo = Some (Inr (x, cs1))" and rx0: "reps cs ?lo x"
      and l1: "length cs1 = length cs" and uf1: "uf_forest cs1" and rt1: "roots cs1 = roots cs"
      and rp1: "\<forall>c r'. reps cs1 c r' \<longleftrightarrow> reps cs c r'" by blast
  have inv1: "maze_inv n cs1 ns"
    by (rule maze_inv_base [OF Cons.prems(2) uf1 l1 rt1 rp1])
  have rh1: "in_range cs1 ?hi" using rh l1 by (simp add: in_range_def)
  \<comment> \<open>\<^verbatim>\<open>y=base(p->higher)\<close>\<close>
  from base_reps [OF uf1 rh1] obtain y cs2
    where b2: "base cs1 ?hi = Some (Inr (y, cs2))" and ry1: "reps cs1 ?hi y"
      and l2: "length cs2 = length cs1" and uf2: "uf_forest cs2" and rt2: "roots cs2 = roots cs1"
      and rp2: "\<forall>c r'. reps cs2 c r' \<longleftrightarrow> reps cs1 c r'" by blast
  have inv2: "maze_inv n cs2 ns"
    by (rule maze_inv_base [OF inv1 uf2 l2 rt2 rp2])
  have rx: "reps cs2 ?lo x" using rx0 rp1 rp2 by simp
  have ry: "reps cs2 ?hi y" using ry1 rp2 by simp
  have len2: "length cs2 = length cs" using l1 l2 by simp
  have ok2: "wall_ok n (length cs2) ?lo ?hi" using ok len2 by simp
  have rts2: "roots cs2 = roots cs" using rt1 rt2 by simp
  from Cons.prems(5) have dka: "distinct (ks @ as)" and ak: "a \<notin> set ks" and aa: "a \<notin> set as"
    by auto
  show ?case
  proof (cases "x = y")
    case False
    from maze_inv_remove [OF inv2 n2 ok2 rx ry False] obtain cs3 ns1
      where un: "unify cs2 x y = Inr cs3" and oe: "open_exits n ns ?lo ?hi = Inr ns1"
        and inv3: "maze_inv n cs3 ns1" and l3: "length cs3 = length cs2"
        and cr: "card (roots cs3) + 1 = card (roots cs2)"
        and E1: "exit_edges n ns1 = insert (?lo, ?hi) (insert (?hi, ?lo) (exit_edges n ns))"
      by blast
    have ok3: "\<forall>a \<in> set as. wall_ok n (length cs3) (lower (ws ! a)) (higher (ws ! a))"
      using Cons.prems(3) l3 len2 by simp
    from Cons.IH [OF tl inv3 ok3 Cons.prems(4) dka] obtain cs' ns' ws' fw' q' ks'
      where run: "carve n cs3 ns1 ws fw q (nxt (ws ! a)) = Some (Inr (cs', ns', ws', fw', q'))"
        and inv': "maze_inv n cs' ns'" and len': "length cs' = length cs3"
        and sw: "same_walls ws ws'" and ki: "keep_inv ws' fw' q' ks'" and dk: "distinct ks'"
        and cnt: "length ks' + card (roots cs3) = length ks + length as + card (roots cs')"
        and sub: "exit_edges n ns1 \<subseteq> exit_edges n ns'"
        and con: "\<forall>a \<in> set as. (lower (ws ! a), higher (ws ! a)) \<in> (exit_edges n ns')\<^sup>*"
        and sk: "set ks \<subseteq> set ks'" and sk': "set ks' \<subseteq> set ks \<union> set as"
        and ee: "exit_edges n ns' = exit_edges n ns1 \<union> wall_edges ws (set as - set ks')"
      by blast
    from sk' ak aa have "a \<notin> set ks'" by auto
    then have "set (a # as) - set ks' = insert a (set as - set ks')" by auto
    then have "exit_edges n ns' = exit_edges n ns \<union> wall_edges ws (set (a # as) - set ks')"
      using ee E1 by (simp add: wall_edges_insert)
    moreover have "set ks' \<subseteq> set ks \<union> set (a # as)" using sk' by auto
    moreover
    have "carve n cs ns ws fw q p = Some (Inr (cs', ns', ws', fw', q'))"
      using p a b1 b2 False un oe run by (subst carve.simps) (simp add: rbind_def)
    moreover have "length ks' + card (roots cs) = length ks + length (a # as) + card (roots cs')"
      using cnt cr rts2 by simp
    moreover have "exit_edges n ns \<subseteq> exit_edges n ns'" using sub E1 by auto
    moreover have "(?lo, ?hi) \<in> (exit_edges n ns')\<^sup>*" using sub E1 by auto
    moreover have "length cs' = length cs" using len' l3 len2 by simp
    ultimately show ?thesis using inv' sw ki dk con sk by auto
  next
    case True
    with ry have ry': "reps cs2 ?hi x" by simp
    have here: "(?lo, ?hi) \<in> (exit_edges n ns)\<^sup>*"
      by (rule maze_inv_keep [OF inv2 ok2 rx ry'])
    have ok2': "\<forall>a \<in> set as. wall_ok n (length cs2) (lower (ws ! a)) (higher (ws ! a))"
      using Cons.prems(3) len2 by simp
    show ?thesis
    proof (cases q)
      case None
      with Cons.prems(4) have ks: "ks = []" by (auto simp: keep_inv_def split: if_splits)
      have ki1: "keep_inv ws (Some a) (Some a) [a]" using a by (simp add: keep_inv_def)
      have d1: "distinct ([a] @ as)" using Cons.prems(5) ks by simp
      from Cons.IH [OF tl inv2 ok2' ki1 d1] obtain cs' ns' ws' fw' q' ks'
        where run: "carve n cs2 ns ws (Some a) (Some a) (nxt (ws ! a))
                      = Some (Inr (cs', ns', ws', fw', q'))"
          and inv': "maze_inv n cs' ns'" and len': "length cs' = length cs2"
          and sw: "same_walls ws ws'" and ki: "keep_inv ws' fw' q' ks'" and dk: "distinct ks'"
          and cnt: "length ks' + card (roots cs2) = length [a] + length as + card (roots cs')"
          and sub: "exit_edges n ns \<subseteq> exit_edges n ns'"
          and con: "\<forall>a \<in> set as. (lower (ws ! a), higher (ws ! a)) \<in> (exit_edges n ns')\<^sup>*"
          and sk: "set [a] \<subseteq> set ks'" and sk': "set ks' \<subseteq> set [a] \<union> set as"
          and ee: "exit_edges n ns' = exit_edges n ns \<union> wall_edges ws (set as - set ks')"
        by blast
      from sk have "set (a # as) - set ks' = set as - set ks'" by auto
      then have "exit_edges n ns' = exit_edges n ns \<union> wall_edges ws (set (a # as) - set ks')"
        using ee by simp
      moreover have "set ks' \<subseteq> set ks \<union> set (a # as)" using sk' by auto
      moreover have "set ks \<subseteq> set ks'" using ks by simp
      moreover
      have "carve n cs ns ws fw q p = Some (Inr (cs', ns', ws', fw', q'))"
        using p a b1 b2 True None run by (subst carve.simps) (simp add: rbind_def)
      moreover have "length ks' + card (roots cs) = length ks + length (a # as) + card (roots cs')"
        using cnt rts2 ks by simp
      moreover have "(?lo, ?hi) \<in> (exit_edges n ns')\<^sup>*"
        using here rtrancl_mono [OF sub] by auto
      moreover have "length cs' = length cs" using len' len2 by simp
      ultimately show ?thesis using inv' sw ki dk con sub by auto
    next
      case (Some b)
      with Cons.prems(4) have kne: "ks \<noteq> []" and b: "b = last ks"
        and fw: "fw = Some (hd ks)" and sg: "seg ws ks"
        by (auto simp: keep_inv_def split: if_splits)
      from kne b have bk: "b \<in> set ks" by simp
      from seg_bound [OF sg bk] have bl: "b < length ws" .
      from bk ak have ba: "b \<noteq> a" by auto
      from bk dka have bas: "b \<notin> set as" by auto
      let ?ws = "ws[b := (ws ! b)\<lparr>nxt := Some a\<rparr>]"
      have nx: "nxt (?ws ! a) = nxt (ws ! a)" using ba by simp
      have tl1: "llist ?ws (nxt (ws ! a)) as" using tl bas by (simp add: llist_upd)
      have ok1: "\<forall>a \<in> set as. wall_ok n (length cs2) (lower (?ws ! a)) (higher (?ws ! a))"
        using ok2' by simp
      have dks: "distinct (ks @ [a])" using dka ak by simp
      have "seg ?ws (ks @ [a])"
        unfolding b by (rule seg_snoc [OF sg kne dks a])
      then have ki1: "keep_inv ?ws fw (Some a) (ks @ [a])"
        using kne fw by (simp add: keep_inv_def)
      have d1: "distinct ((ks @ [a]) @ as)" using Cons.prems(5) by simp
      from Cons.IH [OF tl1 inv2 ok1 ki1 d1] obtain cs' ns' ws' fw' q' ks'
        where run: "carve n cs2 ns ?ws fw (Some a) (nxt (ws ! a))
                      = Some (Inr (cs', ns', ws', fw', q'))"
          and inv': "maze_inv n cs' ns'" and len': "length cs' = length cs2"
          and sw: "same_walls ?ws ws'" and ki: "keep_inv ws' fw' q' ks'" and dk: "distinct ks'"
          and cnt: "length ks' + card (roots cs2) = length (ks @ [a]) + length as + card (roots cs')"
          and sub: "exit_edges n ns \<subseteq> exit_edges n ns'"
          and con: "\<forall>a \<in> set as. (lower (?ws ! a), higher (?ws ! a)) \<in> (exit_edges n ns')\<^sup>*"
          and sk: "set (ks @ [a]) \<subseteq> set ks'" and sk': "set ks' \<subseteq> set (ks @ [a]) \<union> set as"
          and ee: "exit_edges n ns' = exit_edges n ns \<union> wall_edges ?ws (set as - set ks')"
        by blast
      from sk have "set (a # as) - set ks' = set as - set ks'" by auto
      then have "exit_edges n ns' = exit_edges n ns \<union> wall_edges ws (set (a # as) - set ks')"
        using ee by simp
      moreover have "set ks' \<subseteq> set ks \<union> set (a # as)" using sk' by auto
      moreover have "set ks \<subseteq> set ks'" using sk by simp
      moreover
      have "carve n cs ns ws fw q p = Some (Inr (cs', ns', ws', fw', q'))"
        using p a b1 b2 True Some bl nx run
        by (subst carve.simps) (simp add: rbind_def Let_def)
      moreover have "length ks' + card (roots cs) = length ks + length (a # as) + card (roots cs')"
        using cnt rts2 by simp
      moreover have "(?lo, ?hi) \<in> (exit_edges n ns')\<^sup>*"
        using here rtrancl_mono [OF sub] by auto
      moreover have "length cs' = length cs" using len' len2 by simp
      moreover have "same_walls ws ws'"
        by (rule same_walls_trans [OF same_walls_nxt sw])
      moreover have "\<forall>a \<in> set as. (lower (ws ! a), higher (ws ! a)) \<in> (exit_edges n ns')\<^sup>*"
        using con by simp
      ultimately show ?thesis using inv' ki dk sub by auto
    qed
  qed
qed
subsection \<open>The state before the loop\<close>

lemma nth_replicate_int: "0 \<le> c \<Longrightarrow> c < int N \<Longrightarrow> replicate N v ! nat c = v"
  by (simp add: nat_less_iff)

lemma roots_replicate: "roots (replicate N (- 1)) = {0 ..< int N}"
  by (auto simp: roots_def in_range_def)

lemma uf_forest_replicate: "uf_forest (replicate N (- 1))"
  unfolding uf_forest_def
proof (intro allI impI)
  fix c :: int
  assume r: "in_range (replicate N (- 1 :: int)) c"
  then have "replicate N (- 1 :: int) ! nat c < 0" by (simp add: in_range_def nth_replicate_int)
  with r have "chain (replicate N (- 1)) c [] c" by (rule chain_root)
  then show "\<exists>ps r. chain (replicate N (- 1)) c ps r" by blast
qed

lemma exit_edges_init: "exit_edges n (replicate N leaf_node) = {}"
  by (auto simp: exit_edges_def in_range_def leaf_node_def)

lemma exit_bits_init: "exit_bits (replicate N leaf_node) = {}"
  by (auto simp: exit_bits_def in_range_def leaf_node_def)

lemma maze_inv_init: "maze_inv n (replicate N (- 1)) (replicate N leaf_node)"
proof -
  let ?cs = "replicate N (- 1 :: int)"
  have "joined ?cs x y \<longleftrightarrow> x = y" if "in_range ?cs x" and "in_range ?cs y" for x y
  proof -
    from that have "x \<in> roots ?cs" "y \<in> roots ?cs"
      by (simp_all add: roots_def in_range_def nth_replicate_int)
    then have "reps ?cs x x" "reps ?cs y y" by (simp_all add: reps_self)
    then show ?thesis by (rule joined_iff)
  qed
  then show ?thesis
    by (simp add: maze_inv_def uf_forest_replicate exit_edges_init exit_bits_init
        roots_replicate acyclic_graph_def undirected_def sym_def)
qed

text \<open>The list that \<^verbatim>\<open>init_walls\<close> links: every wall of the array, in the order of the array.\<close>

lemma llist_upto:
  assumes "\<forall>k < length ws. nxt (ws ! k) = (if Suc k < length ws then Some (Suc k) else None)"
  shows "k < length ws \<Longrightarrow> llist ws (Some k) [k ..< length ws]"
proof (induction "length ws - k" arbitrary: k)
  case 0
  then show ?case by simp
next
  case (Suc d)
  from Suc.prems have up: "[k ..< length ws] = k # [Suc k ..< length ws]"
    by (simp add: upt_conv_Cons)
  show ?case
  proof (cases "Suc k < length ws")
    case True
    with Suc.hyps have "llist ws (Some (Suc k)) [Suc k ..< length ws]"
      by (intro Suc.hyps(1)) simp_all
    with assms Suc.prems True up show ?thesis by simp
  next
    case False
    with assms Suc.prems up show ?thesis by simp
  qed
qed

text \<open>Every wall of \<^verbatim>\<open>init_walls\<close> lies between two cells that \<^verbatim>\<open>create_maze\<close> knows.\<close>

lemma up_nbr_wall_ok:
  assumes "up_nbr m n c c'"
  shows "wall_ok n (nat (n * m)) (cell_no n c) (cell_no n c')"
proof -
  from assms have g: "in_grid m n c" "in_grid m n c'" by (simp_all add: up_nbr_def)
  from cell_no_range [OF g(1)] cell_no_range [OF g(2)]
  have r: "0 \<le> cell_no n c" "cell_no n c < n * m" "0 \<le> cell_no n c'" "cell_no n c' < n * m"
    by simp_all
  have md: "fst c mod 2 = 0 \<or> fst c mod 2 = 1" by presburger
  from assms have "c' = (fst c - 1, snd c + fst c mod 2) \<or> c' = (fst c, snd c + 1) \<or>
      c' = (fst c + 1, snd c + fst c mod 2)" by (simp add: up_nbr_def)
  then have "cell_no n c' - cell_no n c = fst c mod 2 - n \<or> cell_no n c' - cell_no n c = 1 \<or>
      cell_no n c' - cell_no n c = n + fst c mod 2"
    by (auto simp: cell_no_def algebra_simps)
  with md have "cell_no n c' - cell_no n c = 1 \<or> cell_no n c' - cell_no n c = n \<or>
      cell_no n c' - cell_no n c = n + 1 \<or> cell_no n c' - cell_no n c = - n \<or>
      cell_no n c' - cell_no n c = 1 - n" by auto
  with r show ?thesis by (simp add: wall_ok_def)
qed

subsection \<open>The grid is connected\<close>

text \<open>
  From every cell there is a way to cell \<open>0\<close> along the walls of \<^verbatim>\<open>init_walls\<close>: from cell
  \<open>(i, j)\<close> with \<open>j > 0\<close> across the wall to the north of \<open>(i, j - 1)\<close>, and from \<open>(i, 0)\<close> with
  \<open>i > 0\<close> across its wall to the north-west.
\<close>

lemma grid_connected:
  assumes n2: "2 \<le> n" and sy: "sym R"
    and edge: "\<And>c c'. up_nbr m n c c' \<Longrightarrow> (cell_no n c, cell_no n c') \<in> R\<^sup>*"
  shows "0 \<le> x \<Longrightarrow> x < n * m \<Longrightarrow> (0, x) \<in> R\<^sup>*"
proof (induction "nat x" arbitrary: x rule: less_induct)
  case less
  let ?i = "x div n"
  let ?j = "x mod n"
  from n2 have n0: "0 < n" by simp
  have x: "x = n * ?i + ?j" by simp
  have j: "0 \<le> ?j" "?j < n" using n0 by simp_all
  have i0: "0 \<le> ?i" using less.prems(1) n0 by (simp add: pos_imp_zdiv_nonneg_iff)
  have im: "?i < m"
  proof (rule ccontr)
    assume "\<not> ?i < m"
    then have "m \<le> ?i" by simp
    then have "n * m \<le> n * ?i" using n0 by simp
    also have "\<dots> \<le> x" using j(1) x by linarith
    finally show False using less.prems(2) by simp
  qed
  have syr: "sym (R\<^sup>*)" by (rule sym_rtrancl [OF sy])
  show ?case
  proof (cases "x = 0")
    case True
    then show ?thesis by simp
  next
    case False
    show ?thesis
    proof (cases "?j = 0")
      case jz: False
      with j have j1: "1 \<le> ?j" by simp
      have "up_nbr m n (?i, ?j - 1) (?i, ?j)"
        using i0 im j j1 by (simp add: up_nbr_def in_grid_def)
      from edge [OF this] have "(n * ?i + (?j - 1), n * ?i + ?j) \<in> R\<^sup>*"
        by (simp add: cell_no_def)
      then have e: "(x - 1, x) \<in> R\<^sup>*" using x by (simp add: algebra_simps)
      have "(0, x - 1) \<in> R\<^sup>*"
        using less.prems False by (intro less.hyps) simp_all
      with e show ?thesis by simp
    next
      case jz: True
      with x False have ip: "0 < ?i" using i0 by (cases "?i = 0") simp_all
      let ?y = "n * (?i - 1) + ?i mod 2"
      have md: "0 \<le> ?i mod 2" "?i mod 2 < 2" by simp_all
      have "up_nbr m n (?i, 0) (?i - 1, 0 + ?i mod 2)"
        using ip im n2 md by (simp add: up_nbr_def in_grid_def)
      from edge [OF this] have "(n * ?i, ?y) \<in> R\<^sup>*" by (simp add: cell_no_def)
      moreover have xe: "x = n * ?i" using x jz by simp
      ultimately have "(x, ?y) \<in> R\<^sup>*" by simp
      with syr have e: "(?y, x) \<in> R\<^sup>*" by (rule symD)
      have "0 \<le> n * (?i - 1)" using n0 ip by simp
      then have y0: "0 \<le> ?y" using md by linarith
      have "n * (?i - 1) + n = n * ?i" by (simp add: algebra_simps)
      then have yx: "?y < x" using xe md n2 by linarith
      have "(0, ?y) \<in> R\<^sup>*"
        using y0 yx less.prems by (intro less.hyps) simp_all
      with e show ?thesis by simp
    qed
  qed
qed

text \<open>When the exits connect all cells, one component remains.\<close>

lemma one_root:
  assumes inv: "maze_inv n cs ns" and ne: "cs \<noteq> []"
    and all: "\<And>x y. in_range cs x \<Longrightarrow> in_range cs y \<Longrightarrow> (x, y) \<in> (exit_edges n ns)\<^sup>*"
  shows "card (roots cs) = 1"
proof -
  from inv have uf: "uf_forest cs"
    and conn: "\<And>u v. in_range cs u \<Longrightarrow> in_range cs v \<Longrightarrow>
                 joined cs u v \<longleftrightarrow> (u, v) \<in> (exit_edges n ns)\<^sup>*"
    by (simp_all add: maze_inv_def)
  from ne have r0: "in_range cs 0" by (simp add: in_range_def)
  with uf obtain r where r: "reps cs 0 r" using uf_forest_reps by blast
  have "roots cs = {r}"
  proof (intro equalityI subsetI)
    fix s assume s: "s \<in> roots cs"
    then have rs: "reps cs s s" by (rule reps_self)
    then have "in_range cs s" by (rule reps_in_range)
    with r0 all conn have "joined cs 0 s" by simp
    with joined_iff [OF r rs] show "s \<in> {r}" by simp
  next
    fix s assume "s \<in> {r}"
    with reps_root [OF r] show "s \<in> roots cs" by simp
  qed
  then show ?thesis by simp
qed
subsection \<open>From \<^verbatim>\<open>init_cells\<close> to the end of \<^verbatim>\<open>create_maze\<close>\<close>

lemma make_maze_ok:
  assumes m2: "2 \<le> m" and n2: "2 \<le> n"
  shows "\<exists>ws ws1 fw cs ns ws2 fw2 ks.
     init_walls True m n = Inr ws \<and> int (length ws) = 3 * m * n - m - m - n - n + 1 \<and>
     shuffle_walls rnd ws None = Some (Inr (ws1, fw)) \<and>
     carve n (replicate (nat (n * m)) (- 1)) (replicate (nat (n * m)) leaf_node) ws1 fw None fw
       = Some (Inr (cs, ns, ws2, fw2, Some (last ks))) \<and>
     ks \<noteq> [] \<and> last ks < length ws2 \<and> distinct ks \<and> set ks \<subseteq> {..< length ws} \<and>
     int (length ks) = int (length ws) - (m * n - 1) \<and>
     llist (ws2[last ks := (ws2 ! last ks)\<lparr>nxt := None\<rparr>]) fw2 ks \<and>
     same_walls ws ws2 \<and>
     make_maze rnd m n
       = Some (Inr (cs, ns, ws2[last ks := (ws2 ! last ks)\<lparr>nxt := None\<rparr>], fw2)) \<and>
     length cs = nat (n * m) \<and> maze_inv n cs ns \<and> card (roots cs) = 1 \<and>
     (\<forall>x y. in_range cs x \<and> in_range cs y \<longrightarrow> (x, y) \<in> (exit_edges n ns)\<^sup>*) \<and>
     exit_edges n ns = wall_edges ws ({..< length ws} - set ks) \<and>
     (\<forall>a < length ws. in_range cs (lower (ws ! a)) \<and> in_range cs (higher (ws ! a)))"
proof -
  let ?N = "nat (n * m)"
  let ?cs0 = "replicate ?N (- 1 :: int)"
  let ?ns0 = "replicate ?N leaf_node"
  let ?G = "grid_nbrs m n 0"
  have nm: "0 < n * m" using m2 n2 by (intro mult_pos_pos) simp_all
  \<comment> \<open>\<^verbatim>\<open>init_walls\<close>\<close>
  from init_walls_array [OF m2 n2] obtain ws
    where iw: "init_walls True m n = Inr ws" and lenG: "length ws = length ?G"
      and cnt: "int (length ws) = 3 * m * n - m - m - n - n + 1"
      and ent: "\<forall>k < length ws.
                  lower (ws ! k) = cell_no n (fst (?G ! k)) \<and>
                  higher (ws ! k) = cell_no n (snd (?G ! k)) \<and>
                  nxt (ws ! k) = (if Suc k < length ws then Some (Suc k) else None)" by blast
  let ?W = "length ws"
  have "0 < (m - 1) * (n - 1)" using m2 n2 by (intro mult_pos_pos) simp_all
  moreover have "3 * m * n - m - m - n - n + 1 - (m * n - 1) = 2 * ((m - 1) * (n - 1))"
    by (simp add: algebra_simps)
  ultimately have more: "m * n - 1 < int ?W" using cnt by linarith
  have "0 < m * n" using nm by (simp add: mult.commute)
  with more have "0 < int ?W" by linarith
  then have Wpos: "0 < ?W" by simp
  from ent have "\<forall>k < ?W. nxt (ws ! k) = (if Suc k < ?W then Some (Suc k) else None)" by simp
  from llist_upto [OF this Wpos] have l0: "llist ws (Some 0) [0 ..< ?W]" .
  \<comment> \<open>\<^verbatim>\<open>shuffle_walls\<close>\<close>
  from shuffle_walls_ok [OF l0, of rnd None] obtain ws1 fw ys
    where sh: "shuffle_walls rnd ws None = Some (Inr (ws1, fw))" and l1: "llist ws1 fw ys"
      and ms: "mset ys = mset [0 ..< ?W]" and sw1: "same_walls ws ws1" by blast
  from ms have sys: "set ys = {..< ?W}" using mset_eq_setD by fastforce
  from ms have lys: "length ys = ?W" using mset_eq_length by fastforce
  from l1 have dys: "distinct ys" by (rule llist_distinct)
  have f1: "lower (ws1 ! a) = cell_no n (fst (?G ! a)) \<and> higher (ws1 ! a) = cell_no n (snd (?G ! a))"
    if "a < ?W" for a
    using that sw1 ent by (simp add: same_walls_def)
  have up: "up_nbr m n (fst (?G ! a)) (snd (?G ! a))" if "a < ?W" for a
  proof -
    from that lenG have "?G ! a \<in> set ?G" by simp
    then show ?thesis by (simp add: set_grid_nbrs split_beta)
  qed
  have ok: "\<forall>a \<in> set ys. wall_ok n (length ?cs0) (lower (ws1 ! a)) (higher (ws1 ! a))"
  proof
    fix a assume "a \<in> set ys"
    with sys have a: "a < ?W" by simp
    from up_nbr_wall_ok [OF up [OF a]] f1 [OF a]
    show "wall_ok n (length ?cs0) (lower (ws1 ! a)) (higher (ws1 ! a))" by simp
  qed
  \<comment> \<open>the loop of \<^verbatim>\<open>create_maze\<close>\<close>
  have ki0: "keep_inv ws1 fw None []" by (simp add: keep_inv_def)
  have d0: "distinct ([] @ ys)" using dys by simp
  from carve_ok [OF n2 l1 maze_inv_init ok ki0 d0] obtain cs ns ws2 fw2 q ks
    where run: "carve n ?cs0 ?ns0 ws1 fw None fw = Some (Inr (cs, ns, ws2, fw2, q))"
      and inv: "maze_inv n cs ns" and len: "length cs = length ?cs0"
      and sw2: "same_walls ws1 ws2" and ki: "keep_inv ws2 fw2 q ks" and dk: "distinct ks"
      and num: "length ks + card (roots ?cs0) = length ([] :: nat list) + length ys + card (roots cs)"
      and con: "\<forall>a \<in> set ys. (lower (ws1 ! a), higher (ws1 ! a)) \<in> (exit_edges n ns)\<^sup>*"
      and sk: "set ks \<subseteq> set [] \<union> set ys"
      and ee: "exit_edges n ns = exit_edges n ?ns0 \<union> wall_edges ws1 (set ys - set ks)"
    by blast
  let ?E = "exit_edges n ns"
  from inv have sy: "sym ?E" by (simp add: maze_inv_def)
  have lcs: "length cs = ?N" using len by simp
  \<comment> \<open>the exits connect all cells\<close>
  have edge: "(cell_no n c, cell_no n c') \<in> ?E\<^sup>*" if "up_nbr m n c c'" for c c'
  proof -
    from that have "(c, c') \<in> set ?G" by (simp add: set_grid_nbrs)
    then obtain a where a: "a < length ?G" and ga: "?G ! a = (c, c')"
      by (auto simp: in_set_conv_nth)
    from a lenG have aW: "a < ?W" by simp
    with sys con have "(lower (ws1 ! a), higher (ws1 ! a)) \<in> ?E\<^sup>*" by simp
    with f1 [OF aW] ga show ?thesis by simp
  qed
  have to0: "(0, x) \<in> ?E\<^sup>*" if "in_range cs x" for x
  proof -
    from that lcs nm have x: "0 \<le> x" "x < n * m" by (simp_all add: in_range_def)
    show ?thesis
      by (rule grid_connected [where m = m, OF n2 sy]) (erule edge, rule x(1), rule x(2))
  qed
  have all: "(x, y) \<in> ?E\<^sup>*" if "in_range cs x" and "in_range cs y" for x y
  proof -
    from to0 [OF that(1)] sym_rtrancl [OF sy] have "(x, 0) \<in> ?E\<^sup>*" by (rule symD [rotated])
    with to0 [OF that(2)] show ?thesis by simp
  qed
  have cne: "cs \<noteq> []" using lcs nm by auto
  from one_root [OF inv cne all] have one: "card (roots cs) = 1" by simp
  \<comment> \<open>the number of walls kept\<close>
  have "card (roots ?cs0) = ?N" by (simp add: roots_replicate)
  with num one lys have "length ks + ?N = ?W + 1" by simp
  then have "int (length ks) + int ?N = int ?W + 1" by linarith
  then have nk: "int (length ks) = int ?W - (m * n - 1)" using nm by (simp add: mult.commute)
  with more have kne: "ks \<noteq> []" by auto
  with ki have q: "q = Some (last ks)" and fw2: "fw2 = Some (hd ks)" and sg: "seg ws2 ks"
    by (simp_all add: keep_inv_def)
  from kne have "last ks \<in> set ks" by simp
  from seg_bound [OF sg this] have bl: "last ks < length ws2" .
  let ?ws3 = "ws2[last ks := (ws2 ! last ks)\<lparr>nxt := None\<rparr>]"
  from seg_close [OF sg kne dk] fw2 have l3: "llist ?ws3 fw2 ks" by simp
  have cm: "create_maze n ?cs0 ?ns0 ws1 fw = Some (Inr (cs, ns, ?ws3, fw2))"
    using run q bl by (simp add: create_maze_def rbind_def)
  have mm: "make_maze rnd m n = Some (Inr (cs, ns, ?ws3, fw2))"
    using iw sh cm by (simp add: make_maze_def rbind_def init_cells_def)
  have sw: "same_walls ws ws2" by (rule same_walls_trans [OF sw1 sw2])
  have "wall_edges ws1 ({..< ?W} - set ks) = wall_edges ws ({..< ?W} - set ks)"
    by (rule wall_edges_same [OF sw1]) simp
  with ee sys have E: "?E = wall_edges ws ({..< ?W} - set ks)"
    by (simp add: exit_edges_init)
  have rng: "in_range cs (lower (ws ! a)) \<and> in_range cs (higher (ws ! a))" if "a < ?W" for a
  proof -
    from up_nbr_wall_ok [OF up [OF that]] ent that lcs nm show ?thesis
      by (simp add: wall_ok_def in_range_def)
  qed
  from sk sys have sks: "set ks \<subseteq> {..< ?W}" by simp
  show ?thesis
    using iw cnt sh run q kne bl dk sks nk l3 sw mm lcs inv one all E rng by blast
qed

text \<open>
  Claim C9.  For \<open>2 \<le> m, n \<le> 1000\<close> (\<open>m\<close> columns, \<open>n\<close> rows; every number computed stays
  below \<open>2\<^sup>3\<^sup>1\<close>) and every sequence \<open>rnd\<close> of random numbers, the number \<open>3mn-2m-2n+1\<close> of
  walls of \<^verbatim>\<open>init_walls\<close> exceeds \<open>mn-1\<close> by \<open>2(m-1)(n-1) > 0\<close>; the loop of \<^verbatim>\<open>create_maze\<close>
  ends with \<open>q\<close> pointing to a wall \<open>b\<close> of the array, so that the write \<^verbatim>\<open>q->next=0\<close> does not
  go through a null pointer, and the program reaches the end of \<^verbatim>\<open>create_maze\<close> without a
  fault; the list of the walls kept, from \<^verbatim>\<open>first_wall\<close>, has \<open>2(m-1)(n-1)\<close> walls, at least
  one.
\<close>

theorem create_maze_keeps_a_wall:
  assumes "2 \<le> m" and "m \<le> 1000" and "2 \<le> n" and "n \<le> 1000"
  shows "\<exists>ws ws1 fw cs ns ws2 fw2 b ks.
     init_walls True m n = Inr ws \<and> int (length ws) = 3 * m * n - 2 * m - 2 * n + 1 \<and>
     int (length ws) - (m * n - 1) = 2 * (m - 1) * (n - 1) \<and> m * n - 1 < int (length ws) \<and>
     shuffle_walls rnd ws None = Some (Inr (ws1, fw)) \<and>
     carve n (replicate (nat (n * m)) (- 1)) (replicate (nat (n * m)) leaf_node) ws1 fw None fw
       = Some (Inr (cs, ns, ws2, fw2, Some b)) \<and>
     b < length ws2 \<and>
     make_maze rnd m n = Some (Inr (cs, ns, ws2[b := (ws2 ! b)\<lparr>nxt := None\<rparr>], fw2)) \<and>
     llist (ws2[b := (ws2 ! b)\<lparr>nxt := None\<rparr>]) fw2 ks \<and>
     int (length ks) = 2 * (m - 1) * (n - 1) \<and> 1 \<le> length ks"
proof -
  from make_maze_ok [OF assms(1,3), of rnd] obtain ws ws1 fw cs ns ws2 fw2 ks
    where iw: "init_walls True m n = Inr ws"
      and cnt: "int (length ws) = 3 * m * n - m - m - n - n + 1"
      and sh: "shuffle_walls rnd ws None = Some (Inr (ws1, fw))"
      and run: "carve n (replicate (nat (n * m)) (- 1)) (replicate (nat (n * m)) leaf_node)
                  ws1 fw None fw = Some (Inr (cs, ns, ws2, fw2, Some (last ks)))"
      and kne: "ks \<noteq> []" and bl: "last ks < length ws2"
      and nk: "int (length ks) = int (length ws) - (m * n - 1)"
      and l3: "llist (ws2[last ks := (ws2 ! last ks)\<lparr>nxt := None\<rparr>]) fw2 ks"
      and mm: "make_maze rnd m n
                 = Some (Inr (cs, ns, ws2[last ks := (ws2 ! last ks)\<lparr>nxt := None\<rparr>], fw2))"
    by blast
  have d: "3 * m * n - m - m - n - n + 1 - (m * n - 1) = 2 * (m - 1) * (n - 1)"
    by (simp add: algebra_simps)
  have "0 < (m - 1) * (n - 1)" using assms by (intro mult_pos_pos) simp_all
  moreover have "2 * (m - 1) * (n - 1) = 2 * ((m - 1) * (n - 1))" by (simp only: mult.assoc)
  ultimately have pos: "0 < 2 * (m - 1) * (n - 1)" by linarith
  have c1: "int (length ws) = 3 * m * n - 2 * m - 2 * n + 1" using cnt by simp
  have c2: "int (length ws) - (m * n - 1) = 2 * (m - 1) * (n - 1)" using cnt d by simp
  have c3: "m * n - 1 < int (length ws)" using c2 pos by linarith
  have c4: "int (length ks) = 2 * (m - 1) * (n - 1)" using nk c2 by simp
  have c5: "1 \<le> length ks" using kne by (cases ks) simp_all
  show ?thesis
    using iw c1 c2 c3 sh run bl mm l3 c4 c5 by blast
qed

theorem create_maze_keeps_a_wall_witness:
  "(2 :: int) \<le> 2 \<and> (2 :: int) \<le> 1000 \<and>
   (\<exists>ws ws1 fw cs ns ws2 fw2 b ks.
     init_walls True 2 2 = Inr ws \<and> length ws = 5 \<and>
     shuffle_walls (\<lambda>c. 0) ws None = Some (Inr (ws1, fw)) \<and>
     carve 2 (replicate 4 (- 1)) (replicate 4 leaf_node) ws1 fw None fw
       = Some (Inr (cs, ns, ws2, fw2, Some b)) \<and>
     b < length ws2 \<and>
     make_maze (\<lambda>c. 0) 2 2 = Some (Inr (cs, ns, ws2[b := (ws2 ! b)\<lparr>nxt := None\<rparr>], fw2)) \<and>
     llist (ws2[b := (ws2 ! b)\<lparr>nxt := None\<rparr>]) fw2 ks \<and> length ks = 2)"
proof -
  have h: "(2 :: int) \<le> 2" "(2 :: int) \<le> 1000" by simp_all
  from create_maze_keeps_a_wall [OF h h, of "\<lambda>c. 0"] show ?thesis by simp blast
qed

text \<open>
  Claim C1.  For \<open>2 \<le> m, n \<le> 1000\<close> (\<open>m\<close> columns, \<open>n\<close> rows) and every sequence \<open>rnd\<close> of
  random numbers, the program reaches the end of \<^verbatim>\<open>create_maze\<close>, and then: the forest
  \<^verbatim>\<open>cells\<close> has one root, so one component remains; the walls still in the list are walls
  of \<^verbatim>\<open>init_walls\<close>, and the other walls, the ones removed, are \<open>mn - 1\<close>; the exit relation,
  as \<^verbatim>\<open>build_tree\<close> reads the exit bits, consists of the pairs of cells on the two sides of
  the walls removed, in both directions; the number of exit bits set is \<open>2(mn - 1)\<close>, two
  for each wall removed; the exit relation is symmetric, relates cells of the grid only,
  connects every two cells, has no cycle, and as an undirected graph has \<open>mn - 1\<close> edges.
\<close>

theorem create_maze_spanning_tree:
  assumes "2 \<le> m" and "m \<le> 1000" and "2 \<le> n" and "n \<le> 1000"
  shows "\<exists>ws0 cs ns ws fw ks.
     init_walls True m n = Inr ws0 \<and>
     make_maze rnd m n = Some (Inr (cs, ns, ws, fw)) \<and>
     int (length cs) = m * n \<and> int (length ns) = m * n \<and>
     card (roots cs) = 1 \<and>
     llist ws fw ks \<and> set ks \<subseteq> {..< length ws0} \<and> same_walls ws0 ws \<and>
     int (card ({..< length ws0} - set ks)) = m * n - 1 \<and>
     exit_edges n ns = wall_edges ws0 ({..< length ws0} - set ks) \<and>
     int (card (exit_bits ns)) = 2 * (m * n - 1) \<and>
     sym (exit_edges n ns) \<and>
     exit_edges n ns \<subseteq> {c. in_range ns c} \<times> {c. in_range ns c} \<and>
     (\<forall>x y. in_range ns x \<and> in_range ns y \<longrightarrow> (x, y) \<in> (exit_edges n ns)\<^sup>*) \<and>
     acyclic_graph (exit_edges n ns) \<and>
     int (card (undirected (exit_edges n ns))) = m * n - 1"
proof -
  from make_maze_ok [OF assms(1,3), of rnd] obtain ws0 cs ns ws2 fw ks
    where iw: "init_walls True m n = Inr ws0"
      and kne: "ks \<noteq> []" and dk: "distinct ks" and sks: "set ks \<subseteq> {..< length ws0}"
      and nk: "int (length ks) = int (length ws0) - (m * n - 1)"
      and l3: "llist (ws2[last ks := (ws2 ! last ks)\<lparr>nxt := None\<rparr>]) fw ks"
      and sw: "same_walls ws0 ws2"
      and mm: "make_maze rnd m n
                 = Some (Inr (cs, ns, ws2[last ks := (ws2 ! last ks)\<lparr>nxt := None\<rparr>], fw))"
      and lcs: "length cs = nat (n * m)" and inv: "maze_inv n cs ns"
      and one: "card (roots cs) = 1"
      and all: "\<forall>x y. in_range cs x \<and> in_range cs y \<longrightarrow> (x, y) \<in> (exit_edges n ns)\<^sup>*"
      and E: "exit_edges n ns = wall_edges ws0 ({..< length ws0} - set ks)"
      and rng: "\<forall>a < length ws0. in_range cs (lower (ws0 ! a)) \<and> in_range cs (higher (ws0 ! a))"
    by blast
  let ?ws = "ws2[last ks := (ws2 ! last ks)\<lparr>nxt := None\<rparr>]"
  let ?E = "exit_edges n ns"
  from inv have lns: "length ns = length cs" and sy: "sym ?E" and ac: "acyclic_graph ?E"
    and cb: "card (exit_bits ns) + 2 * card (roots cs) = 2 * length cs"
    and cu: "card (undirected ?E) + card (roots cs) = length cs"
    by (simp_all add: maze_inv_def)
  have nm: "0 < n * m" using assms by (intro mult_pos_pos) simp_all
  have c1: "int (length cs) = m * n" using lcs nm by (simp add: mult.commute)
  have c2: "int (length ns) = m * n" using c1 lns by simp
  have ir: "in_range ns c = in_range cs c" for c using lns by (simp add: in_range_def)
  have sw': "same_walls ws0 ?ws" by (rule same_walls_trans [OF sw same_walls_nxt])
  have "card ({..< length ws0} - set ks) = length ws0 - length ks"
    using sks dk by (simp add: card_Diff_subset distinct_card)
  moreover have "int (length ks) \<le> int (length ws0)"
    using sks dk by (metis card_lessThan card_mono distinct_card finite_lessThan of_nat_le_iff)
  ultimately have c3: "int (card ({..< length ws0} - set ks)) = m * n - 1"
    using nk by simp
  from cb one have "int (card (exit_bits ns)) + 2 = 2 * int (length cs)" by linarith
  with c1 have c4: "int (card (exit_bits ns)) = 2 * (m * n - 1)" by simp
  from cu one have "int (card (undirected ?E)) + 1 = int (length cs)" by linarith
  with c1 have c5: "int (card (undirected ?E)) = m * n - 1" by simp
  have c6: "?E \<subseteq> {c. in_range ns c} \<times> {c. in_range ns c}"
    unfolding E using rng by (auto simp: wall_edges_def ir)
  have c7: "\<forall>x y. in_range ns x \<and> in_range ns y \<longrightarrow> (x, y) \<in> ?E\<^sup>*"
    using all by (simp add: ir)
  show ?thesis
    using iw mm c1 c2 one l3 sks sw' c3 E c4 sy c6 c7 ac c5 by blast
qed

theorem create_maze_spanning_tree_witness:
  "(2 :: int) \<le> 2 \<and> (2 :: int) \<le> 1000 \<and>
   (\<exists>ws0 cs ns ws fw ks.
     init_walls True 2 2 = Inr ws0 \<and>
     make_maze (\<lambda>c. 0) 2 2 = Some (Inr (cs, ns, ws, fw)) \<and>
     length cs = 4 \<and> length ns = 4 \<and>
     card (roots cs) = 1 \<and>
     llist ws fw ks \<and>
     card ({..< length ws0} - set ks) = 3 \<and>
     exit_edges 2 ns = wall_edges ws0 ({..< length ws0} - set ks) \<and>
     card (exit_bits ns) = 6 \<and>
     sym (exit_edges 2 ns) \<and>
     (\<forall>x y. in_range ns x \<and> in_range ns y \<longrightarrow> (x, y) \<in> (exit_edges 2 ns)\<^sup>*) \<and>
     acyclic_graph (exit_edges 2 ns) \<and>
     card (undirected (exit_edges 2 ns)) = 3)"
proof -
  have h: "(2 :: int) \<le> 2" "(2 :: int) \<le> 1000" by simp_all
  from create_maze_spanning_tree [OF h h, of "\<lambda>c. 0"] obtain ws0 cs ns ws fw ks
    where r: "init_walls True 2 2 = Inr ws0"
      "make_maze (\<lambda>c. 0) 2 2 = Some (Inr (cs, ns, ws, fw))"
      "int (length cs) = 2 * 2" "int (length ns) = 2 * 2"
      "card (roots cs) = 1" "llist ws fw ks"
      "int (card ({..< length ws0} - set ks)) = 2 * 2 - 1"
      "exit_edges 2 ns = wall_edges ws0 ({..< length ws0} - set ks)"
      "int (card (exit_bits ns)) = 2 * (2 * 2 - 1)"
      "sym (exit_edges 2 ns)"
      "\<forall>x y. in_range ns x \<and> in_range ns y \<longrightarrow> (x, y) \<in> (exit_edges 2 ns)\<^sup>*"
      "acyclic_graph (exit_edges 2 ns)"
      "int (card (undirected (exit_edges 2 ns))) = 2 * 2 - 1"
    by blast
  from r(3,4,7,9,13) have "length cs = 4" "length ns = 4"
    "card ({..< length ws0} - set ks) = 3" "card (exit_bits ns) = 6"
    "card (undirected (exit_edges 2 ns)) = 3" by simp_all
  with r h show ?thesis by blast
qed

end
